theory Spec2Isabelle
  imports Complex_Main
begin

section \<open>Wireless sensor network routing simulator: the simulation engine of app.py\<close>

text \<open>
  The embedding follows \<^verbatim>\<open>src/app.py\<close>. Python floats are idealised as
  \<^typ>\<open>real\<close>: energies, distances and thresholds are real numbers, and every
  arithmetic step is exact. A node is a dict with the four keys
  \<^verbatim>\<open>id\<close>, \<^verbatim>\<open>pos\<close>, \<^verbatim>\<open>energy\<close>, \<^verbatim>\<open>alive\<close>;
  the node collection is a Python list of such dicts, one fresh dict per list position
  (\<^verbatim>\<open>create_nodes\<close> builds them so), hence the list itself serves as the store
  and the position in the list as the address of a node.
\<close>

subsection \<open>Constants\<close>

definition WIDTH :: int where "WIDTH = 100"
definition HEIGHT :: int where "HEIGHT = 100"
definition INITIAL_ENERGY :: real where "INITIAL_ENERGY = 1"
definition TX_COST :: real where "TX_COST = 2 / 100"
definition RX_COST :: real where "RX_COST = 1 / 100"

type_synonym point = "real \<times> real"
type_synonym edge = "point \<times> point"

definition BS_POS :: point where "BS_POS = (50, 115)"

subsection \<open>Geometry and the node model\<close>

text \<open>\<^verbatim>\<open>math.dist(a, b)\<close> on two planar points.\<close>

definition distance :: "point \<Rightarrow> point \<Rightarrow> real" where
  "distance a b = sqrt ((fst a - fst b)\<^sup>2 + (snd a - snd b)\<^sup>2)"

record node =
  id_n :: int
  pos :: point
  energy :: real
  alive :: bool

text \<open>
  \<^verbatim>\<open>create_nodes(n)\<close>. The two calls of \<^verbatim>\<open>random.randint\<close> per node are the
  parameters \<open>rx\<close> and \<open>ry\<close>, indexed by the node's number.
\<close>

definition create_nodes :: "nat \<Rightarrow> (nat \<Rightarrow> int) \<Rightarrow> (nat \<Rightarrow> int) \<Rightarrow> node list" where
  "create_nodes n rx ry =
     map (\<lambda>i. \<lparr>id_n = int i, pos = (of_int (rx i), of_int (ry i)),
               energy = INITIAL_ENERGY, alive = True\<rparr>) [0..<n]"

text \<open>\<^verbatim>\<open>use_energy(node, amount)\<close>, returning the mutated node.\<close>

definition use_energy :: "node \<Rightarrow> real \<Rightarrow> node" where
  "use_energy n amount =
     (if alive n then
        (let n1 = n\<lparr>energy := energy n - amount\<rparr>
         in if energy n1 \<le> 0 then n1\<lparr>alive := False\<rparr> else n1)
      else n)"

text \<open>The call \<^verbatim>\<open>use_energy(x, amount)\<close> where \<open>x\<close> is the node stored at position \<open>i\<close>.\<close>

definition use_energy_at :: "nat \<Rightarrow> real \<Rightarrow> node list \<Rightarrow> node list" where
  "use_energy_at i amount st = st[i := use_energy (st ! i) amount]"

text \<open>The positions of the nodes that are alive: \<^verbatim>\<open>[n for n in nodes if n["alive"]]\<close>.\<close>

definition alive_idx :: "node list \<Rightarrow> nat list" where
  "alive_idx nodes = filter (\<lambda>i. alive (nodes ! i)) [0..<length nodes]"

subsection \<open>Direct routing\<close>

text \<open>
  One iteration of the loop of \<^verbatim>\<open>direct_routing\<close>. The body reads and writes only the
  node it visits, so the loop rebuilds the list node by node; the accumulator is
  \<^verbatim>\<open>(paths, delivered)\<close>.
\<close>

definition direct_step :: "int \<Rightarrow> node \<Rightarrow> edge list \<times> int \<Rightarrow> node \<times> edge list \<times> int" where
  "direct_step packets n acc =
     (if \<not> alive n then (n, acc)
      else
        (let d = distance (pos n) BS_POS;
             n1 = use_energy n (TX_COST * (d / 50))
         in if alive n1 then (n1, fst acc @ [(pos n1, BS_POS)], snd acc + packets)
            else (n1, acc)))"

fun direct_loop :: "int \<Rightarrow> node list \<Rightarrow> edge list \<times> int \<Rightarrow> node list \<times> edge list \<times> int" where
  "direct_loop packets [] acc = ([], acc)"
| "direct_loop packets (n # ns) acc =
     (case direct_step packets n acc of
        (n1, acc1) \<Rightarrow>
          (case direct_loop packets ns acc1 of (ns1, acc2) \<Rightarrow> (n1 # ns1, acc2)))"

definition direct_routing :: "node list \<Rightarrow> int \<Rightarrow> node list \<times> edge list \<times> int" where
  "direct_routing nodes packets = direct_loop packets nodes ([], 0)"

subsection \<open>LEACH\<close>

text \<open>
  \<^verbatim>\<open>random.sample(population, k)\<close>: \<open>k\<close> draws without replacement. The \<open>i\<close>-th draw
  picks the element at position \<open>pick i mod m\<close> of the \<open>m\<close> elements still in the pool.
  Python raises \<^verbatim>\<open>ValueError\<close> when the sample is larger than the population; that is
  the result \<open>None\<close>.
\<close>

fun sample :: "'a list \<Rightarrow> nat \<Rightarrow> (nat \<Rightarrow> nat) \<Rightarrow> 'a list option" where
  "sample pool 0 pick = Some []"
| "sample pool (Suc k) pick =
     (if pool = [] then None
      else
        (let j = pick 0 mod length pool
         in map_option ((#) (pool ! j))
              (sample (take j pool @ drop (Suc j) pool) k (\<lambda>i. pick (Suc i)))))"

text \<open>
  \<^verbatim>\<open>min(xs, key=f)\<close>: the first element with the least key; \<^verbatim>\<open>ValueError\<close> on an
  empty list is \<open>None\<close>.
\<close>

fun py_min_by :: "('a \<Rightarrow> real) \<Rightarrow> 'a list \<Rightarrow> 'a option" where
  "py_min_by key [] = None"
| "py_min_by key (c # cs) = Some (foldl (\<lambda>b x. if key x < key b then x else b) c cs)"

text \<open>
  \<^verbatim>\<open>n in cluster_heads\<close> for the node at position \<open>i\<close>: Python's list membership holds
  for an element that is the same object or an equal dict.
\<close>

definition is_head :: "node list \<Rightarrow> nat list \<Rightarrow> nat \<Rightarrow> bool" where
  "is_head st cluster_heads i = list_ex (\<lambda>c. c = i \<or> st ! c = st ! i) cluster_heads"

text \<open>
  The loop of \<^verbatim>\<open>leach\<close> over \<^verbatim>\<open>alive_nodes\<close>; the state is the store, \<^verbatim>\<open>paths\<close> and
  \<^verbatim>\<open>delivered\<close>. A head that receives is debited in the store, so a later iteration
  sees it debited (or dead).
\<close>

fun leach_loop :: "nat list \<Rightarrow> int \<Rightarrow> nat list \<Rightarrow> node list \<times> edge list \<times> int
    \<Rightarrow> (node list \<times> edge list \<times> int) option" where
  "leach_loop cluster_heads packets [] s = Some s"
| "leach_loop cluster_heads packets (i # rest) (st, paths, delivered) =
     (if is_head st cluster_heads i then
        (let d = distance (pos (st ! i)) BS_POS;
             st1 = use_energy_at i (TX_COST * (d / 60)) st
         in leach_loop cluster_heads packets rest
              (st1, paths @ [(pos (st1 ! i), BS_POS)], delivered + packets))
      else
        (case py_min_by (\<lambda>c. distance (pos (st ! c)) (pos (st ! i))) cluster_heads of
           None \<Rightarrow> None
         | Some ch \<Rightarrow>
             (let d = distance (pos (st ! i)) (pos (st ! ch));
                  st1 = use_energy_at i (TX_COST * (d / 60)) st;
                  st2 = use_energy_at ch (RX_COST * (4 / 10)) st1
              in leach_loop cluster_heads packets rest
                   (st2, paths @ [(pos (st2 ! i), pos (st2 ! ch))], delivered))))"

definition num_ch :: "nat \<Rightarrow> nat" where
  "num_ch alive_count = max 1 (alive_count div 10)"

definition cluster_heads_of :: "node list \<Rightarrow> (nat \<Rightarrow> nat) \<Rightarrow> nat list option" where
  "cluster_heads_of nodes pick =
     sample (alive_idx nodes) (num_ch (length (alive_idx nodes))) pick"

definition leach :: "node list \<Rightarrow> int \<Rightarrow> (nat \<Rightarrow> nat) \<Rightarrow> (node list \<times> edge list \<times> int) option" where
  "leach nodes packets pick =
     (let alive_nodes = alive_idx nodes
      in if alive_nodes = [] then Some (nodes, [], 0)
         else
           (case cluster_heads_of nodes pick of
              None \<Rightarrow> None
            | Some cluster_heads \<Rightarrow> leach_loop cluster_heads packets alive_nodes (nodes, [], 0)))"

subsection \<open>PEGASIS\<close>

text \<open>
  The chain loop over consecutive pairs \<^verbatim>\<open>alive_nodes[i], alive_nodes[i + 1]\<close>.
\<close>

fun pegasis_chain :: "nat list \<Rightarrow> node list \<times> edge list \<Rightarrow> node list \<times> edge list" where
  "pegasis_chain (a # b # rest) (st, paths) =
     (let d = distance (pos (st ! a)) (pos (st ! b));
          st1 = use_energy_at a (TX_COST * (d / 70)) st;
          st2 = use_energy_at b (RX_COST * (4 / 10)) st1
      in pegasis_chain (b # rest) (st2, paths @ [(pos (st2 ! a), pos (st2 ! b))]))"
| "pegasis_chain chain s = s"

definition pegasis :: "node list \<Rightarrow> int \<Rightarrow> node list \<times> edge list \<times> int" where
  "pegasis nodes packets =
     (let alive_nodes = sort_key (\<lambda>i. fst (pos (nodes ! i))) (alive_idx nodes)
      in case pegasis_chain alive_nodes (nodes, []) of
           (st, paths) \<Rightarrow>
             if alive_nodes \<noteq> [] then
               (let l = last alive_nodes;
                    d = distance (pos (st ! l)) BS_POS;
                    st1 = use_energy_at l (TX_COST * (d / 60)) st
                in (st1, paths @ [(pos (st1 ! l), BS_POS)], 0 + packets))
             else (st, paths, 0))"

subsection \<open>TEEN\<close>

text \<open>The triggering condition, as written in the source.\<close>

definition teen_trigger :: "real \<Rightarrow> real \<Rightarrow> real \<Rightarrow> bool" where
  "teen_trigger sensed hard_th soft_th = (sensed \<ge> hard_th \<and> sensed - soft_th \<ge> 0)"

text \<open>
  One iteration of the loop of \<^verbatim>\<open>teen\<close>. The draws of \<^verbatim>\<open>random.uniform(0, 100)\<close> are
  the stream \<open>sense\<close>; the counter \<open>k\<close> in the accumulator is the number of draws made so
  far in this round (only alive nodes draw).
\<close>

definition teen_step :: "int \<Rightarrow> real \<Rightarrow> real \<Rightarrow> (nat \<Rightarrow> real) \<Rightarrow> node
    \<Rightarrow> nat \<times> edge list \<times> int \<Rightarrow> node \<times> nat \<times> edge list \<times> int" where
  "teen_step packets hard_th soft_th sense n acc =
     (case acc of (k, paths, delivered) \<Rightarrow>
        if \<not> alive n then (n, acc)
        else
          (let sensed = sense k
           in if teen_trigger sensed hard_th soft_th then
                (let d = distance (pos n) BS_POS;
                     n1 = use_energy n (TX_COST * (d / 55))
                 in if alive n1 then (n1, Suc k, paths @ [(pos n1, BS_POS)], delivered + packets)
                    else (n1, Suc k, paths, delivered))
              else (n, Suc k, paths, delivered)))"

fun teen_loop :: "int \<Rightarrow> real \<Rightarrow> real \<Rightarrow> (nat \<Rightarrow> real) \<Rightarrow> node list
    \<Rightarrow> nat \<times> edge list \<times> int \<Rightarrow> node list \<times> nat \<times> edge list \<times> int" where
  "teen_loop packets hard_th soft_th sense [] acc = ([], acc)"
| "teen_loop packets hard_th soft_th sense (n # ns) acc =
     (case teen_step packets hard_th soft_th sense n acc of
        (n1, acc1) \<Rightarrow>
          (case teen_loop packets hard_th soft_th sense ns acc1 of
             (ns1, acc2) \<Rightarrow> (n1 # ns1, acc2)))"

definition teen :: "node list \<Rightarrow> int \<Rightarrow> real \<Rightarrow> real \<Rightarrow> (nat \<Rightarrow> real)
    \<Rightarrow> node list \<times> edge list \<times> int" where
  "teen nodes packets hard_th soft_th sense =
     (case teen_loop packets hard_th soft_th sense nodes (0, [], 0) of
        (nodes1, k, paths, delivered) \<Rightarrow> (nodes1, paths, delivered))"

subsection \<open>The round driver of the single-protocol mode\<close>

datatype protocol = Direct | LEACH | PEGASIS | TEEN

text \<open>The randomness one round consumes: the draws of the sample and the sensed values.\<close>

record rnd =
  pick :: "nat \<Rightarrow> nat"
  sense :: "nat \<Rightarrow> real"

fun run_round :: "protocol \<Rightarrow> node list \<Rightarrow> int \<Rightarrow> real \<Rightarrow> real \<Rightarrow> rnd
    \<Rightarrow> (node list \<times> edge list \<times> int) option" where
  "run_round Direct nodes packets hard soft r = Some (direct_routing nodes packets)"
| "run_round LEACH nodes packets hard soft r = leach nodes packets (pick r)"
| "run_round PEGASIS nodes packets hard soft r = Some (pegasis nodes packets)"
| "run_round TEEN nodes packets hard soft r = Some (teen nodes packets hard soft (sense r))"

definition dead_count :: "node list \<Rightarrow> nat" where
  "dead_count nodes = length (filter (\<lambda>n. \<not> alive n) nodes)"

definition total_residual_energy :: "node list \<Rightarrow> real" where
  "total_residual_energy nodes = sum_list (map (\<lambda>n. max (energy n) 0) nodes)"

record sim =
  sim_nodes :: "node list"
  sim_paths :: "edge list"
  delivered_total :: int
  dead_history :: "nat list"
  energy_history :: "real list"

text \<open>
  The loop \<^verbatim>\<open>for r in range(rounds)\<close>: one element of \<open>rs\<close> per round. An exception
  raised by a round ends the run (\<open>None\<close>). The comparison mode threads the nodes
  through the same routing calls round by round and keeps only the delivered total, so the
  node collections it passes through are the ones of this loop.
\<close>

fun sim_loop :: "protocol \<Rightarrow> int \<Rightarrow> real \<Rightarrow> real \<Rightarrow> rnd list \<Rightarrow> sim \<Rightarrow> sim option" where
  "sim_loop proto packets hard soft [] s = Some s"
| "sim_loop proto packets hard soft (r # rs) s =
     (case run_round proto (sim_nodes s) packets hard soft r of
        None \<Rightarrow> None
      | Some (nodes1, paths1, delivered) \<Rightarrow>
          sim_loop proto packets hard soft rs
            \<lparr>sim_nodes = nodes1, sim_paths = paths1,
             delivered_total = delivered_total s + delivered,
             dead_history = dead_history s @ [dead_count nodes1],
             energy_history = energy_history s @ [total_residual_energy nodes1]\<rparr>)"

text \<open>
  The state before the first round; \<^verbatim>\<open>paths\<close> is not yet bound there in the source
  and is written as the empty list.
\<close>

definition run_simulation :: "protocol \<Rightarrow> node list \<Rightarrow> int \<Rightarrow> real \<Rightarrow> real \<Rightarrow> rnd list
    \<Rightarrow> sim option" where
  "run_simulation proto nodes packets hard soft rs =
     sim_loop proto packets hard soft rs
       \<lparr>sim_nodes = nodes, sim_paths = [], delivered_total = 0,
        dead_history = [], energy_history = []\<rparr>"

subsection \<open>What a run may do to a node\<close>

text \<open>
  \<open>node_debits n m\<close>: the node \<open>m\<close> is the node \<open>n\<close> after finitely many calls of
  \<^verbatim>\<open>use_energy\<close> with non-negative amounts, and after nothing else. \<open>debits\<close>
  lifts it to a collection, position by position.
\<close>

inductive node_debits :: "node \<Rightarrow> node \<Rightarrow> bool" where
  nd_refl: "node_debits n n"
| nd_step: "node_debits n m \<Longrightarrow> 0 \<le> a \<Longrightarrow> node_debits n (use_energy m a)"

definition debits :: "node list \<Rightarrow> node list \<Rightarrow> bool" where
  "debits = list_all2 node_debits"


section \<open>Properties\<close>

subsection \<open>Amounts and the debit relation\<close>

lemma distance_nonneg: "0 \<le> distance a b"
  by (simp add: distance_def)

lemma tx_amount_nonneg: "0 < c \<Longrightarrow> 0 \<le> TX_COST * (distance a b / c)"
  by (simp add: TX_COST_def distance_nonneg)

lemma rx_amount_nonneg: "0 \<le> RX_COST * (4 / 10)"
  by (simp add: RX_COST_def)

lemma node_debits_trans: "node_debits m k \<Longrightarrow> node_debits n m \<Longrightarrow> node_debits n k"
  by (induction rule: node_debits.induct) (auto intro: node_debits.intros)

lemma node_debits_id: "node_debits n m \<Longrightarrow> id_n m = id_n n"
  by (induction rule: node_debits.induct) (auto simp: use_energy_def Let_def)

lemma node_debits_pos: "node_debits n m \<Longrightarrow> pos m = pos n"
  by (induction rule: node_debits.induct) (auto simp: use_energy_def Let_def)

lemma node_debits_alive: "node_debits n m \<Longrightarrow> alive m \<Longrightarrow> alive n"
  by (induction rule: node_debits.induct) (auto simp: use_energy_def Let_def split: if_splits)

lemma node_debits_energy: "node_debits n m \<Longrightarrow> energy m \<le> energy n"
  by (induction rule: node_debits.induct) (auto simp: use_energy_def Let_def split: if_splits)

lemma node_debits_positive:
  "node_debits n m \<Longrightarrow> (alive n \<longrightarrow> 0 < energy n) \<Longrightarrow> (alive m \<longrightarrow> 0 < energy m)"
  by (induction rule: node_debits.induct) (auto simp: use_energy_def Let_def split: if_splits)

lemma node_debits_dead: "node_debits n m \<Longrightarrow> \<not> alive n \<Longrightarrow> m = n"
  by (induction rule: node_debits.induct) (auto simp: use_energy_def Let_def split: if_splits)

lemma debits_refl: "debits ns ns"
  by (simp add: debits_def list_all2_refl nd_refl)

lemma debits_trans: "debits a b \<Longrightarrow> debits b c \<Longrightarrow> debits a c"
  unfolding debits_def
  by (rule list_all2_trans[where ?P1.0 = node_debits and ?P2.0 = node_debits])
     (auto intro: node_debits_trans)

lemma debits_use_energy_at:
  "debits ns st \<Longrightarrow> 0 \<le> a \<Longrightarrow> debits ns (use_energy_at i a st)"
proof -
  assume d: "debits ns st" and a: "0 \<le> a"
  have "node_debits (ns ! k) (st[i := use_energy (st ! i) a] ! k)" if "k < length st" for k
  proof (cases "k = i")
    case True
    with that d a show ?thesis
      by (simp add: debits_def list_all2_conv_all_nth nd_step)
  next
    case False
    with that d show ?thesis
      by (simp add: debits_def list_all2_conv_all_nth)
  qed
  with d show ?thesis
    by (simp add: debits_def use_energy_at_def list_all2_conv_all_nth)
qed

lemma debits_length: "debits ns st \<Longrightarrow> length st = length ns"
  by (simp add: debits_def list_all2_lengthD)

lemma debits_nth: "debits ns st \<Longrightarrow> i < length ns \<Longrightarrow> node_debits (ns ! i) (st ! i)"
  by (simp add: debits_def list_all2_nthD)

lemma debits_map_id: "debits ns st \<Longrightarrow> map id_n st = map id_n ns"
  by (auto simp: debits_def list_all2_conv_all_nth node_debits_id intro: nth_equalityI)

lemma debits_map_pos: "debits ns st \<Longrightarrow> map pos st = map pos ns"
  by (auto simp: debits_def list_all2_conv_all_nth node_debits_pos intro: nth_equalityI)

lemma tx_nonneg: "0 \<le> TX_COST * distance a b"
  by (simp add: TX_COST_def distance_nonneg)

lemma node_debits_use_energy: "0 \<le> a \<Longrightarrow> node_debits n (use_energy n a)"
  by (rule nd_step[OF nd_refl])

subsection \<open>Every routing operation only debits\<close>

lemma direct_step_debits: "node_debits n (fst (direct_step packets n acc))"
  by (simp add: direct_step_def Let_def nd_refl node_debits_use_energy tx_nonneg)

lemma direct_loop_debits: "debits ns (fst (direct_loop packets ns acc))"
  by (induction ns arbitrary: acc)
     (auto simp: debits_def split_def direct_step_debits)

lemma direct_routing_debits: "debits nodes (fst (direct_routing nodes packets))"
  by (simp add: direct_routing_def direct_loop_debits)

lemma teen_step_debits: "node_debits n (fst (teen_step packets hard soft sns n acc))"
  by (simp add: teen_step_def Let_def split_def nd_refl node_debits_use_energy tx_nonneg)

lemma teen_loop_debits: "debits ns (fst (teen_loop packets hard soft sns ns acc))"
  by (induction ns arbitrary: acc)
     (auto simp: debits_def split_def teen_step_debits)

lemma teen_debits: "debits nodes (fst (teen nodes packets hard soft sns))"
  by (simp add: teen_def split_def teen_loop_debits)

lemma leach_loop_debits:
  "leach_loop hs packets is (st, paths, delivered) = Some (st1, r) \<Longrightarrow> debits ns st
     \<Longrightarrow> debits ns st1"
proof (induction "is" arbitrary: st paths delivered)
  case Nil
  then show ?case by simp
next
  case (Cons i rest)
  show ?case
  proof (cases "is_head st hs i")
    case True
    let ?st1 = "use_energy_at i (TX_COST * (distance (pos (st ! i)) BS_POS / 60)) st"
    have "debits ns ?st1"
      using Cons.prems(2) by (intro debits_use_energy_at) (simp_all add: tx_nonneg)
    moreover from True Cons.prems(1)
    have "leach_loop hs packets rest (?st1, paths @ [(pos (?st1 ! i), BS_POS)], delivered + packets)
            = Some (st1, r)"
      by (simp add: Let_def)
    ultimately show ?thesis by (rule Cons.IH[rotated])
  next
    case False
    with Cons.prems(1) obtain ch where
      ch: "py_min_by (\<lambda>c. distance (pos (st ! c)) (pos (st ! i))) hs = Some ch"
      by (auto split: option.splits)
    let ?st1 = "use_energy_at i (TX_COST * (distance (pos (st ! i)) (pos (st ! ch)) / 60)) st"
    let ?st2 = "use_energy_at ch (RX_COST * (4 / 10)) ?st1"
    have "debits ns ?st2"
      using Cons.prems(2)
      by (intro debits_use_energy_at) (simp_all add: tx_nonneg RX_COST_def)
    moreover from False ch Cons.prems(1)
    have "leach_loop hs packets rest (?st2, paths @ [(pos (?st2 ! i), pos (?st2 ! ch))], delivered)
            = Some (st1, r)"
      by (simp add: Let_def)
    ultimately show ?thesis by (rule Cons.IH[rotated])
  qed
qed

lemma leach_debits: "leach nodes packets pk = Some (nodes1, r) \<Longrightarrow> debits nodes nodes1"
  by (auto simp: leach_def Let_def debits_refl split: if_splits option.splits
           dest: leach_loop_debits[OF _ debits_refl])

lemma pegasis_chain_debits:
  "debits ns st \<Longrightarrow> debits ns (fst (pegasis_chain chain (st, paths)))"
proof (induction chain "(st, paths)" arbitrary: st paths rule: pegasis_chain.induct)
  case (1 a b rest st paths)
  let ?st1 = "use_energy_at a (TX_COST * (distance (pos (st ! a)) (pos (st ! b)) / 70)) st"
  let ?st2 = "use_energy_at b (RX_COST * (4 / 10)) ?st1"
  have "debits ns ?st2"
    using "1.prems"
    by (intro debits_use_energy_at) (simp_all add: tx_nonneg RX_COST_def)
  then have "debits ns (fst (pegasis_chain (b # rest)
                 (?st2, paths @ [(pos (?st2 ! a), pos (?st2 ! b))])))"
    by (rule "1.hyps"[OF refl refl refl])
  then show ?case by (simp add: Let_def)
qed auto

lemma pegasis_debits: "debits nodes (fst (pegasis nodes packets))"
proof -
  let ?chain = "sort_key (\<lambda>i. fst (pos (nodes ! i))) (alive_idx nodes)"
  have c: "debits nodes (fst (pegasis_chain ?chain (nodes, [])))"
    by (rule pegasis_chain_debits[OF debits_refl])
  then have "debits nodes (use_energy_at l (TX_COST * (distance p BS_POS / 60))
               (fst (pegasis_chain ?chain (nodes, []))))" for l p
    by (intro debits_use_energy_at) (simp_all add: tx_nonneg)
  with c show ?thesis
    by (simp add: pegasis_def Let_def split_def debits_refl)
qed

lemma run_round_debits:
  "run_round proto nodes packets hard soft r = Some (nodes1, res) \<Longrightarrow> debits nodes nodes1"
proof (cases proto)
  case Direct
  assume "run_round proto nodes packets hard soft r = Some (nodes1, res)"
  with Direct direct_routing_debits[of nodes packets] show ?thesis by auto
next
  case LEACH
  assume "run_round proto nodes packets hard soft r = Some (nodes1, res)"
  with LEACH show ?thesis by (auto dest: leach_debits)
next
  case PEGASIS
  assume "run_round proto nodes packets hard soft r = Some (nodes1, res)"
  with PEGASIS pegasis_debits[of nodes packets] show ?thesis by auto
next
  case TEEN
  assume "run_round proto nodes packets hard soft r = Some (nodes1, res)"
  with TEEN teen_debits[of nodes packets hard soft "sense r"] show ?thesis by auto
qed

subsection \<open>Sampling without replacement and LEACH never raising\<close>

lemma remove_nth_set: "set (take j xs @ drop (Suc j) xs) \<subseteq> set xs"
  by (auto dest: in_set_takeD in_set_dropD)

lemma remove_nth_distinct: "distinct xs \<Longrightarrow> distinct (take j xs @ drop (Suc j) xs)"
  by (auto dest: in_set_takeD in_set_dropD simp: set_take_disj_set_drop_if_distinct)

lemma remove_nth_notin:
  assumes "distinct xs" "j < length xs"
  shows "xs ! j \<notin> set (take j xs @ drop (Suc j) xs)"
proof -
  have "distinct (take j xs @ xs ! j # drop (Suc j) xs)"
    using assms by (simp only: id_take_nth_drop[symmetric])
  then show ?thesis by auto
qed

lemma sample_Some:
  "k \<le> length pool \<Longrightarrow>
     \<exists>hs. sample pool k pk = Some hs \<and> length hs = k \<and> set hs \<subseteq> set pool
          \<and> (distinct pool \<longrightarrow> distinct hs)"
proof (induction k arbitrary: pool pk)
  case 0
  then show ?case by simp
next
  case (Suc k)
  let ?j = "pk 0 mod length pool"
  let ?rest = "take ?j pool @ drop (Suc ?j) pool"
  from Suc.prems have ne: "pool \<noteq> []" by auto
  then have j: "?j < length pool" by simp
  from Suc.prems j have "k \<le> length ?rest" by simp
  from Suc.IH[OF this, of "\<lambda>i. pk (Suc i)"] obtain hs where
    hs: "sample ?rest k (\<lambda>i. pk (Suc i)) = Some hs" "length hs = k" "set hs \<subseteq> set ?rest"
        "distinct ?rest \<longrightarrow> distinct hs"
    by blast
  have "sample pool (Suc k) pk = Some (pool ! ?j # hs)"
    using ne hs(1) by (simp add: Let_def)
  moreover have "set (pool ! ?j # hs) \<subseteq> set pool"
    using hs(3) remove_nth_set[of ?j pool] j by auto
  moreover have "distinct (pool ! ?j # hs)" if "distinct pool"
    using that hs(3,4) remove_nth_distinct[of pool ?j] remove_nth_notin[OF that j] by auto
  ultimately show ?case using hs(2) by auto
qed

lemma num_ch_le: "0 < n \<Longrightarrow> num_ch n \<le> n"
  by (auto simp: num_ch_def)

lemma num_ch_pos: "0 < num_ch n"
  by (simp add: num_ch_def)

lemma alive_idx_distinct: "distinct (alive_idx nodes)"
  by (simp add: alive_idx_def)

lemma alive_idx_set: "set (alive_idx nodes) = {i. i < length nodes \<and> alive (nodes ! i)}"
  by (auto simp: alive_idx_def)

lemma cluster_heads_Some:
  assumes "alive_idx nodes \<noteq> []"
  shows "\<exists>hs. cluster_heads_of nodes pk = Some hs
            \<and> length hs = num_ch (length (alive_idx nodes))
            \<and> set hs \<subseteq> set (alive_idx nodes) \<and> distinct hs \<and> hs \<noteq> []"
proof -
  from assms have "num_ch (length (alive_idx nodes)) \<le> length (alive_idx nodes)"
    by (simp add: num_ch_le)
  from sample_Some[OF this, of pk] obtain hs where
    hs: "sample (alive_idx nodes) (num_ch (length (alive_idx nodes))) pk = Some hs"
      "length hs = num_ch (length (alive_idx nodes))" "set hs \<subseteq> set (alive_idx nodes)"
      "distinct hs"
    using alive_idx_distinct by blast
  moreover from hs(2) num_ch_pos[of "length (alive_idx nodes)"] have "hs \<noteq> []" by auto
  ultimately show ?thesis by (auto simp: cluster_heads_of_def)
qed

lemma py_min_by_Some: "cs \<noteq> [] \<Longrightarrow> \<exists>c. py_min_by key cs = Some c"
  by (cases cs) auto

lemma leach_loop_Some:
  "hs \<noteq> [] \<Longrightarrow> \<exists>res. leach_loop hs packets is s = Some res"
proof (induction "is" arbitrary: s)
  case Nil
  show ?case by (simp del: split_paired_Ex)
next
  case (Cons i rest)
  obtain st paths delivered where s: "s = (st, paths, delivered)" by (cases s) auto
  show ?case
  proof (cases "is_head st hs i")
    case True
    with s Cons.IH[OF Cons.prems] show ?thesis by (simp add: Let_def)
  next
    case False
    from py_min_by_Some[OF Cons.prems] obtain ch where
      "py_min_by (\<lambda>c. distance (pos (st ! c)) (pos (st ! i))) hs = Some ch" by blast
    with False s Cons.IH[OF Cons.prems] show ?thesis by (simp add: Let_def)
  qed
qed

lemma leach_Some: "\<exists>res. leach nodes packets pk = Some res"
proof (cases "alive_idx nodes = []")
  case True
  then show ?thesis by (simp add: leach_def)
next
  case False
  from cluster_heads_Some[OF False, of pk] obtain hs where
    hs: "cluster_heads_of nodes pk = Some hs" "hs \<noteq> []" by blast
  from leach_loop_Some[OF hs(2), of packets "alive_idx nodes" "(nodes, [], 0)"]
  show ?thesis using False hs(1) by (simp add: leach_def)
qed

lemma run_round_Some: "\<exists>res. run_round proto nodes packets hard soft r = Some res"
  by (cases proto) (simp_all add: leach_Some del: split_paired_Ex)

subsection \<open>The round driver\<close>

lemma node_debits_residual: "node_debits n m \<Longrightarrow> max (energy m) 0 \<le> max (energy n) 0"
  by (drule node_debits_energy) simp

lemma debits_residual: "debits ns st \<Longrightarrow> total_residual_energy st \<le> total_residual_energy ns"
  unfolding debits_def total_residual_energy_def
  by (induction rule: list_all2_induct) (auto dest: node_debits_residual intro: add_mono)

lemma total_residual_nonneg: "0 \<le> total_residual_energy ns"
  unfolding total_residual_energy_def by (induction ns) auto

lemma node_debits_dead_count: "node_debits n m \<Longrightarrow> \<not> alive n \<Longrightarrow> \<not> alive m"
  by (auto dest: node_debits_alive)

lemma debits_dead_count: "debits ns st \<Longrightarrow> dead_count ns \<le> dead_count st"
  unfolding debits_def dead_count_def
  by (induction rule: list_all2_induct) (auto dest: node_debits_alive)

lemma sim_loop_spec:
  "\<exists>s1 ext. sim_loop proto packets hard soft rs s = Some s1
      \<and> debits (sim_nodes s) (sim_nodes s1)
      \<and> energy_history s1 = energy_history s @ ext \<and> length ext = length rs
      \<and> sorted_wrt (\<ge>) ext
      \<and> (\<forall>e \<in> set ext. 0 \<le> e \<and> e \<le> total_residual_energy (sim_nodes s))"
proof (induction rs arbitrary: s)
  case Nil
  show ?case by (simp add: debits_refl)
next
  case (Cons r rs)
  from run_round_Some[of proto "sim_nodes s" packets hard soft r]
  obtain nodes1 paths1 delivered where
    rr: "run_round proto (sim_nodes s) packets hard soft r = Some (nodes1, paths1, delivered)"
    by (metis prod_cases3)
  let ?s1 = "\<lparr>sim_nodes = nodes1, sim_paths = paths1,
              delivered_total = delivered_total s + delivered,
              dead_history = dead_history s @ [dead_count nodes1],
              energy_history = energy_history s @ [total_residual_energy nodes1]\<rparr>"
  from run_round_debits[OF rr] have d1: "debits (sim_nodes s) nodes1" .
  from Cons.IH[of ?s1] obtain s2 ext where
    s2: "sim_loop proto packets hard soft rs ?s1 = Some s2"
        "debits nodes1 (sim_nodes s2)"
        "energy_history s2 = (energy_history s @ [total_residual_energy nodes1]) @ ext"
        "length ext = length rs" "sorted_wrt (\<ge>) ext"
        "\<forall>e \<in> set ext. 0 \<le> e \<and> e \<le> total_residual_energy nodes1"
    by auto
  let ?ext = "total_residual_energy nodes1 # ext"
  have "sim_loop proto packets hard soft (r # rs) s = Some s2"
    using rr s2(1) by simp
  moreover have "debits (sim_nodes s) (sim_nodes s2)"
    using d1 s2(2) by (rule debits_trans)
  moreover have "energy_history s2 = energy_history s @ ?ext"
    using s2(3) by simp
  moreover have "length ?ext = length (r # rs)"
    using s2(4) by simp
  moreover have "sorted_wrt (\<ge>) ?ext"
    using s2(5,6) by simp
  moreover have "\<forall>e \<in> set ?ext. 0 \<le> e \<and> e \<le> total_residual_energy (sim_nodes s)"
    using s2(6) debits_residual[OF d1] total_residual_nonneg[of nodes1] by auto
  ultimately show ?case by blast
qed

subsection \<open>Distances used by the concrete runs\<close>

lemma sqrt_3600: "sqrt 3600 = 60"
  by (rule real_sqrt_unique) simp_all

lemma distance_50_55: "distance (50, 55) BS_POS = 60"
  by (simp add: distance_def BS_POS_def sqrt_3600)

lemma distance_BS: "distance BS_POS BS_POS = 0"
  by (simp add: distance_def)

subsection \<open>Rounds with no alive node, and a node at the base station\<close>

lemma direct_loop_dead:
  "\<forall>n \<in> set ns. \<not> alive n \<Longrightarrow> direct_loop packets ns acc = (ns, acc)"
  by (induction ns arbitrary: acc) (simp_all add: direct_step_def)

lemma teen_loop_dead:
  "\<forall>n \<in> set ns. \<not> alive n \<Longrightarrow> teen_loop packets hard soft sns ns acc = (ns, acc)"
  by (induction ns arbitrary: acc) (simp_all add: teen_step_def split_def)

lemma alive_idx_dead: "\<forall>n \<in> set nodes. \<not> alive n \<Longrightarrow> alive_idx nodes = []"
  by (auto simp: alive_idx_def filter_empty_conv)

lemma direct_step_at_BS:
  assumes "pos n = BS_POS" "alive n" "0 < energy n"
  shows "direct_step packets n (paths, delivered)
           = (n, paths @ [(BS_POS, BS_POS)], delivered + packets)"
  using assms by (simp add: direct_step_def use_energy_def distance_BS Let_def)

lemma sim_loop_at_BS:
  assumes "pos n = BS_POS" "alive n" "0 < energy n"
  shows "sim_nodes s = [n] \<Longrightarrow>
     \<exists>s1. sim_loop Direct packets hard soft rs s = Some s1 \<and> sim_nodes s1 = [n]
        \<and> delivered_total s1 = delivered_total s + int (length rs) * packets
        \<and> dead_history s1 = dead_history s @ replicate (length rs) 0"
proof (induction rs arbitrary: s)
  case Nil
  then show ?case by simp
next
  case (Cons r rs)
  have round: "direct_routing [n] packets = ([n], [(BS_POS, BS_POS)], packets)"
    by (simp add: direct_routing_def direct_step_at_BS[OF assms])
  let ?s1 = "\<lparr>sim_nodes = [n], sim_paths = [(BS_POS, BS_POS)],
              delivered_total = delivered_total s + packets,
              dead_history = dead_history s @ [dead_count [n]],
              energy_history = energy_history s @ [total_residual_energy [n]]\<rparr>"
  have step: "sim_loop Direct packets hard soft (r # rs) s
                = sim_loop Direct packets hard soft rs ?s1"
    using Cons.prems round by simp
  from Cons.IH[of ?s1] obtain s2 where
    s2: "sim_loop Direct packets hard soft rs ?s1 = Some s2" "sim_nodes s2 = [n]"
        "delivered_total s2 = delivered_total ?s1 + int (length rs) * packets"
        "dead_history s2 = dead_history ?s1 @ replicate (length rs) 0"
    by auto
  have "dead_count [n] = 0" using assms(2) by (simp add: dead_count_def)
  with s2 step show ?case
    by (simp add: algebra_simps replicate_append_same)
qed

subsection \<open>TEEN with hard threshold 0\<close>

lemma teen_trigger_hard0: "0 \<le> sensed \<Longrightarrow> teen_trigger sensed 0 soft_th = (soft_th \<le> sensed)"
  by (auto simp: teen_trigger_def)

lemma teen_step_all_trigger:
  assumes "teen_trigger (sns k) hard_th soft_th"
  shows "fst (teen_step packets hard_th soft_th sns n (k, paths, delivered))
           = use_energy n (TX_COST * (distance (pos n) BS_POS / 55))"
  using assms by (simp add: teen_step_def Let_def use_energy_def)

lemma teen_loop_all_trigger:
  assumes "\<forall>k. teen_trigger (sns k) hard_th soft_th"
  shows "fst (teen_loop packets hard_th soft_th sns ns acc)
           = map (\<lambda>n. use_energy n (TX_COST * (distance (pos n) BS_POS / 55))) ns"
proof (induction ns arbitrary: acc)
  case Nil
  show ?case by simp
next
  case (Cons n ns)
  obtain k paths delivered where acc: "acc = (k, paths, delivered)" by (cases acc) auto
  from assms have "teen_trigger (sns k) hard_th soft_th" by simp
  then have "fst (teen_step packets hard_th soft_th sns n (k, paths, delivered))
           = use_energy n (TX_COST * (distance (pos n) BS_POS / 55))"
    by (rule teen_step_all_trigger)
  with Cons.IH show ?case by (simp add: acc split_def)
qed

subsection \<open>Which transmissions are counted as delivered\<close>

lemma direct_loop_delivered:
  "direct_loop packets ns (paths, delivered) = (ns1, paths1, delivered1) \<Longrightarrow>
     paths1 = paths @ map (\<lambda>n. (pos n, BS_POS)) (filter alive ns1)
     \<and> delivered1 = delivered + packets * int (length (filter alive ns1))"
proof (induction ns arbitrary: paths delivered ns1)
  case Nil
  then show ?case by simp
next
  case (Cons n ns)
  let ?n1 = "fst (direct_step packets n (paths, delivered))"
  let ?acc1 = "if alive ?n1 then (paths @ [(pos ?n1, BS_POS)], delivered + packets)
               else (paths, delivered)"
  have step: "direct_step packets n (paths, delivered) = (?n1, ?acc1)"
    by (simp add: direct_step_def Let_def)
  obtain ns2 where
    rest: "direct_loop packets ns ?acc1 = (ns2, paths1, delivered1)" and ns1: "ns1 = ?n1 # ns2"
    using Cons.prems step by (auto split: prod.splits)
  show ?case
  proof (cases "alive ?n1")
    case True
    with rest have "direct_loop packets ns (paths @ [(pos ?n1, BS_POS)], delivered + packets)
                      = (ns2, paths1, delivered1)" by simp
    from Cons.IH[OF this] True ns1 show ?thesis by (simp add: algebra_simps)
  next
    case False
    with rest have "direct_loop packets ns (paths, delivered) = (ns2, paths1, delivered1)" by simp
    from Cons.IH[OF this] False ns1 show ?thesis by simp
  qed
qed

lemma teen_step_acc:
  "teen_step packets hard_th soft_th sns n (k, paths, delivered) =
     (let sent = (alive n \<and> teen_trigger (sns k) hard_th soft_th);
          n1 = (if sent then use_energy n (TX_COST * (distance (pos n) BS_POS / 55)) else n)
      in (n1, (if alive n then Suc k else k),
          (if sent \<and> alive n1 then paths @ [(pos n1, BS_POS)] else paths),
          (if sent \<and> alive n1 then delivered + packets else delivered)))"
  by (simp add: teen_step_def Let_def)

lemma upt_Suc_shift: "[0..<Suc m] = 0 # map Suc [0..<m]"
  by (simp add: upt_conv_Cons map_Suc_upt del: upt_Suc)

lemma filter_upt_Suc_shift:
  "filter P [0..<Suc m] = (if P 0 then [0] else []) @ map Suc (filter (\<lambda>i. P (Suc i)) [0..<m])"
  unfolding upt_Suc_shift by (simp add: filter_map o_def)

lemma teen_loop_delivered:
  "teen_loop packets hard_th soft_th sns ns (k, paths, delivered) = (ns1, k1, paths1, delivered1) \<Longrightarrow>
     delivered1 = delivered + packets * int (length (filter
        (\<lambda>i. alive (ns ! i)
             \<and> teen_trigger (sns (k + length (filter alive (take i ns)))) hard_th soft_th
             \<and> alive (ns1 ! i)) [0..<length ns]))"
proof (induction ns arbitrary: k paths delivered ns1)
  case Nil
  then show ?case by simp
next
  case (Cons n ns)
  let ?sent = "alive n \<and> teen_trigger (sns k) hard_th soft_th"
  let ?n1 = "if ?sent then use_energy n (TX_COST * (distance (pos n) BS_POS / 55)) else n"
  let ?k = "if alive n then Suc k else k"
  define counted where "counted = (?sent \<and> alive ?n1)"
  let ?paths = "if counted then paths @ [(pos ?n1, BS_POS)] else paths"
  let ?delivered = "if counted then delivered + packets else delivered"
  have step: "teen_step packets hard_th soft_th sns n (k, paths, delivered)
                = (?n1, ?k, ?paths, ?delivered)"
    by (simp add: teen_step_acc Let_def counted_def)
  obtain ns2 where
    rest: "teen_loop packets hard_th soft_th sns ns (?k, ?paths, ?delivered)
             = (ns2, k1, paths1, delivered1)" and ns1: "ns1 = ?n1 # ns2"
    using Cons.prems unfolding teen_loop.simps step by (auto split: prod.splits)
  let ?P = "\<lambda>i. alive ((n # ns) ! i)
             \<and> teen_trigger (sns (k + length (filter alive (take i (n # ns))))) hard_th soft_th
             \<and> alive (ns1 ! i)"
  let ?Q = "\<lambda>i. alive (ns ! i)
             \<and> teen_trigger (sns (?k + length (filter alive (take i ns)))) hard_th soft_th
             \<and> alive (ns2 ! i)"
  have PQ: "?P (Suc i) = ?Q i" for i
    using ns1 by simp
  have P0: "?P 0 = counted"
    using ns1 by (simp add: counted_def)
  have "(\<lambda>i. ?P (Suc i)) = ?Q"
    by (intro ext) (rule PQ)
  then have shift: "filter ?P [0..<Suc (length ns)]
          = (if ?P 0 then [0] else []) @ map Suc (filter ?Q [0..<length ns])"
    by (simp only: filter_upt_Suc_shift[of ?P "length ns"])
  have len: "length (filter ?P [0..<length (n # ns)])
          = (if counted then 1 else 0) + length (filter ?Q [0..<length ns])"
    unfolding length_Cons shift P0 by simp
  from Cons.IH[OF rest]
  have "delivered1 = ?delivered + packets * int (length (filter ?Q [0..<length ns]))" .
  then show ?case unfolding len by (simp add: algebra_simps)
qed

subsection \<open>Counting in a LEACH round\<close>

lemma length_use_energy_at: "length (use_energy_at i a st) = length st"
  by (simp add: use_energy_at_def)

lemma use_energy_id: "id_n (use_energy n a) = id_n n"
  by (simp add: use_energy_def Let_def)

lemma map_id_use_energy_at: "map id_n (use_energy_at i a st) = map id_n st"
  by (cases "i < length st")
     (auto simp: use_energy_at_def nth_list_update use_energy_id intro!: nth_equalityI)

lemma is_head_iff:
  assumes "distinct (map id_n st)" "i < length st" "set hs \<subseteq> {..<length st}"
  shows "is_head st hs i = (i \<in> set hs)"
proof -
  have "c = i" if "c \<in> set hs" "st ! c = st ! i" for c
  proof -
    from that(1) assms(3) have c: "c < length st" by auto
    have "(map id_n st ! c = map id_n st ! i) = (c = i)"
      using assms(1) c assms(2) by (intro nth_eq_iff_index_eq) simp_all
    with that(2) c assms(2) show ?thesis by simp
  qed
  then show ?thesis by (auto simp: is_head_def list_ex_iff)
qed

lemma leach_loop_count:
  assumes "hs \<noteq> []"
  shows "set hs \<subseteq> {..<length st} \<Longrightarrow> set is \<subseteq> {..<length st} \<Longrightarrow> distinct (map id_n st) \<Longrightarrow>
    \<exists>st1 paths1. leach_loop hs packets is (st, paths, delivered)
        = Some (st1, paths1, delivered + packets * int (length (filter (\<lambda>i. i \<in> set hs) is)))
      \<and> length paths1 = length paths + length is"
proof (induction "is" arbitrary: st paths delivered)
  case Nil
  show ?case by simp
next
  case (Cons i rest)
  from Cons.prems have i: "i < length st" and rest: "set rest \<subseteq> {..<length st}" by auto
  have head: "is_head st hs i = (i \<in> set hs)"
    by (rule is_head_iff[OF Cons.prems(3) i Cons.prems(1)])
  show ?case
  proof (cases "i \<in> set hs")
    case True
    let ?st1 = "use_energy_at i (TX_COST * (distance (pos (st ! i)) BS_POS / 60)) st"
    have "\<exists>st1 paths1. leach_loop hs packets rest
              (?st1, paths @ [(pos (?st1 ! i), BS_POS)], delivered + packets)
        = Some (st1, paths1,
                (delivered + packets) + packets * int (length (filter (\<lambda>i. i \<in> set hs) rest)))
      \<and> length paths1 = length (paths @ [(pos (?st1 ! i), BS_POS)]) + length rest"
      using Cons.prems rest
      by (intro Cons.IH) (simp_all add: length_use_energy_at map_id_use_energy_at)
    with True head show ?thesis
      by (simp add: Let_def algebra_simps)
  next
    case False
    from py_min_by_Some[OF assms] obtain ch where
      ch: "py_min_by (\<lambda>c. distance (pos (st ! c)) (pos (st ! i))) hs = Some ch" by blast
    let ?st1 = "use_energy_at i (TX_COST * (distance (pos (st ! i)) (pos (st ! ch)) / 60)) st"
    let ?st2 = "use_energy_at ch (RX_COST * (4 / 10)) ?st1"
    have "\<exists>st1 paths1. leach_loop hs packets rest
              (?st2, paths @ [(pos (?st2 ! i), pos (?st2 ! ch))], delivered)
        = Some (st1, paths1, delivered + packets * int (length (filter (\<lambda>i. i \<in> set hs) rest)))
      \<and> length paths1 = length (paths @ [(pos (?st2 ! i), pos (?st2 ! ch))]) + length rest"
      using Cons.prems rest
      by (intro Cons.IH) (simp_all add: length_use_energy_at map_id_use_energy_at)
    with False head ch show ?thesis
      by (simp add: Let_def)
  qed
qed

lemma filter_mem_length:
  assumes "distinct xs" "distinct hs" "set hs \<subseteq> set xs"
  shows "length (filter (\<lambda>i. i \<in> set hs) xs) = length hs"
proof -
  have "length (filter (\<lambda>i. i \<in> set hs) xs) = card ({i. i \<in> set hs} \<inter> set xs)"
    using assms(1) by (rule distinct_length_filter)
  also have "{i. i \<in> set hs} \<inter> set xs = set hs" using assms(3) by auto
  also have "card (set hs) = length hs" using assms(2) by (rule distinct_card)
  finally show ?thesis .
qed

lemma leach_count:
  assumes "distinct (map id_n nodes)" "alive_idx nodes \<noteq> []"
  shows "\<exists>nodes1 paths. leach nodes packets pk
            = Some (nodes1, paths, packets * int (num_ch (length (alive_idx nodes))))
          \<and> length paths = length (alive_idx nodes)"
proof -
  from cluster_heads_Some[OF assms(2), of pk] obtain hs where
    hs: "cluster_heads_of nodes pk = Some hs" "length hs = num_ch (length (alive_idx nodes))"
        "set hs \<subseteq> set (alive_idx nodes)" "distinct hs" "hs \<noteq> []"
    by blast
  have sub: "set (alive_idx nodes) \<subseteq> {..<length nodes}"
    by (auto simp: alive_idx_set)
  with hs(3) have hsub: "set hs \<subseteq> {..<length nodes}" by blast
  from leach_loop_count[OF hs(5) hsub sub assms(1), of packets "[]" 0]
  obtain st1 paths1 where
    "leach_loop hs packets (alive_idx nodes) (nodes, [], 0)
        = Some (st1, paths1, packets * int (length (filter (\<lambda>i. i \<in> set hs) (alive_idx nodes))))"
    "length paths1 = length (alive_idx nodes)"
    by auto
  moreover have "length (filter (\<lambda>i. i \<in> set hs) (alive_idx nodes)) = length hs"
    by (rule filter_mem_length[OF alive_idx_distinct hs(4,3)])
  ultimately show ?thesis
    using assms(2) hs(1,2) by (simp add: leach_def)
qed

subsection \<open>Populations the program creates\<close>

lemma create_nodes_ids: "map id_n (create_nodes n rx ry) = map int [0..<n]"
  by (simp add: create_nodes_def o_def)

lemma create_nodes_distinct_ids: "distinct (map id_n (create_nodes n rx ry))"
  by (simp add: create_nodes_ids distinct_map inj_on_def)

lemma create_nodes_alive_positive:
  "m \<in> set (create_nodes n rx ry) \<Longrightarrow> alive m \<and> 0 < energy m"
  by (auto simp: create_nodes_def INITIAL_ENERGY_def)

lemma debits_distinct_ids: "debits ns st \<Longrightarrow> distinct (map id_n ns) \<Longrightarrow> distinct (map id_n st)"
  by (simp add: debits_map_id)

lemma debits_alive_positive:
  assumes "debits ns st" "\<forall>m \<in> set ns. alive m \<longrightarrow> 0 < energy m"
  shows "\<forall>m \<in> set st. alive m \<longrightarrow> 0 < energy m"
proof
  fix m assume "m \<in> set st"
  then obtain i where i: "i < length st" "st ! i = m" by (auto simp: in_set_conv_nth)
  with debits_length[OF assms(1)] have il: "i < length ns" by simp
  from debits_nth[OF assms(1) il] i(2) have "node_debits (ns ! i) m" by simp
  moreover from assms(2) il have "alive (ns ! i) \<longrightarrow> 0 < energy (ns ! i)" by simp
  ultimately show "alive m \<longrightarrow> 0 < energy m" by (rule node_debits_positive)
qed

lemma alive_idx_nodes: "map ((!) nodes) (alive_idx nodes) = filter alive nodes"
proof -
  have "map ((!) nodes) (alive_idx nodes) = filter alive (map ((!) nodes) [0..<length nodes])"
    by (simp add: alive_idx_def filter_map o_def)
  then show ?thesis by (simp add: map_nth)
qed

lemma alive_idx_length: "length (alive_idx nodes) = length (filter alive nodes)"
  using arg_cong[OF alive_idx_nodes, of length nodes] by simp

lemma alive_idx_nonempty: "(alive_idx nodes \<noteq> []) = (\<exists>n \<in> set nodes. alive n)"
  using alive_idx_length[of nodes]
  by (metis filter_False filter_empty_conv length_0_conv)

lemma sort_key_Nil_iff: "(sort_key f xs = []) = (xs = [])"
  by (metis length_sort length_0_conv)

lemma pegasis_delivered:
  "snd (snd (pegasis nodes packets)) = (if alive_idx nodes = [] then 0 else packets)"
  by (simp add: pegasis_def Let_def split_def sort_key_Nil_iff)

lemma distance_BS_50_55: "distance BS_POS (50, 55) = 60"
  by (simp add: distance_def BS_POS_def sqrt_3600)

subsection \<open>A LEACH round with a single alive node\<close>

lemma use_energy_pos: "pos (use_energy n a) = pos n"
  by (simp add: use_energy_def Let_def)

lemma leach_single:
  assumes "alive_idx nodes = [i]"
  shows "cluster_heads_of nodes pk = Some [i]"
    and "leach nodes packets pk
           = Some (use_energy_at i (TX_COST * (distance (pos (nodes ! i)) BS_POS / 60)) nodes,
                   [(pos (nodes ! i), BS_POS)], packets)"
proof -
  show hs: "cluster_heads_of nodes pk = Some [i]"
    by (simp add: cluster_heads_of_def assms num_ch_def)
  have "i \<in> set (alive_idx nodes)" by (simp add: assms)
  then have i: "i < length nodes" by (simp add: alive_idx_set)
  have "is_head nodes [i] i" by (simp add: is_head_def)
  with hs i show "leach nodes packets pk
           = Some (use_energy_at i (TX_COST * (distance (pos (nodes ! i)) BS_POS / 60)) nodes,
                   [(pos (nodes ! i), BS_POS)], packets)"
    by (simp add: leach_def assms Let_def use_energy_at_def use_energy_pos)
qed

text \<open>
  The model of the sample leaves no choice out: every list of distinct elements of the
  pool is the sample for some sequence of draws.
\<close>

lemma sample_complete:
  "distinct hs \<Longrightarrow> set hs \<subseteq> set pool \<Longrightarrow> \<exists>pk. sample pool (length hs) pk = Some hs"
proof (induction hs arbitrary: pool)
  case Nil
  show ?case by simp
next
  case (Cons h hs)
  from Cons.prems(2) obtain j where j: "j < length pool" "pool ! j = h"
    by (auto simp: in_set_conv_nth)
  let ?rest = "take j pool @ drop (Suc j) pool"
  have "set pool = set (take j pool @ pool ! j # drop (Suc j) pool)"
    using j(1) by (simp only: id_take_nth_drop[symmetric])
  then have "set pool = insert h (set ?rest)" using j(2) by simp
  with Cons.prems have "set hs \<subseteq> set ?rest" by auto
  moreover from Cons.prems(1) have "distinct hs" by simp
  ultimately obtain pk1 where pk1: "sample ?rest (length hs) pk1 = Some hs"
    using Cons.IH by blast
  let ?pk = "\<lambda>i. case i of 0 \<Rightarrow> j | Suc i1 \<Rightarrow> pk1 i1"
  from j(1) have ne: "pool \<noteq> []" by auto
  have "sample pool (length (h # hs)) ?pk = Some (h # hs)"
    using ne j pk1 by (simp add: Let_def)
  then show ?case by blast
qed

subsection \<open>What a TEEN round does to each node\<close>

lemma teen_loop_nodes:
  "teen_loop packets hard_th soft_th sns ns (k, paths, delivered) = (ns1, acc1) \<Longrightarrow>
     length ns1 = length ns
     \<and> (\<forall>i < length ns. ns1 ! i =
           (if alive (ns ! i)
               \<and> teen_trigger (sns (k + length (filter alive (take i ns)))) hard_th soft_th
            then use_energy (ns ! i) (TX_COST * (distance (pos (ns ! i)) BS_POS / 55))
            else ns ! i))"
proof (induction ns arbitrary: k paths delivered ns1 acc1)
  case Nil
  then show ?case by simp
next
  case (Cons n ns)
  let ?sent = "alive n \<and> teen_trigger (sns k) hard_th soft_th"
  let ?n1 = "if ?sent then use_energy n (TX_COST * (distance (pos n) BS_POS / 55)) else n"
  let ?k = "if alive n then Suc k else k"
  obtain paths2 delivered2 where
    step: "teen_step packets hard_th soft_th sns n (k, paths, delivered)
             = (?n1, ?k, paths2, delivered2)"
    by (simp add: teen_step_acc Let_def)
  obtain ns2 where
    rest: "teen_loop packets hard_th soft_th sns ns (?k, paths2, delivered2) = (ns2, acc1)"
    and ns1: "ns1 = ?n1 # ns2"
    using Cons.prems unfolding teen_loop.simps step by (auto split: prod.splits)
  from Cons.IH[OF rest] have
    len: "length ns2 = length ns" and
    nth: "\<And>i. i < length ns \<Longrightarrow> ns2 ! i =
           (if alive (ns ! i)
               \<and> teen_trigger (sns (?k + length (filter alive (take i ns)))) hard_th soft_th
            then use_energy (ns ! i) (TX_COST * (distance (pos (ns ! i)) BS_POS / 55))
            else ns ! i)"
    by simp_all
  have "ns1 ! i =
           (if alive ((n # ns) ! i)
               \<and> teen_trigger (sns (k + length (filter alive (take i (n # ns))))) hard_th soft_th
            then use_energy ((n # ns) ! i) (TX_COST * (distance (pos ((n # ns) ! i)) BS_POS / 55))
            else (n # ns) ! i)" if "i < length (n # ns)" for i
  proof (cases i)
    case 0
    then show ?thesis by (simp add: ns1)
  next
    case (Suc j)
    with that have "j < length ns" by simp
    from nth[OF this] Suc show ?thesis by (auto simp: ns1)
  qed
  with len ns1 show ?case by simp
qed

lemma teen_loop_paths:
  "teen_loop packets hard_th soft_th sns ns (k, paths, delivered) = (ns1, k1, paths1, delivered1) \<Longrightarrow>
     paths1 = paths @ map (\<lambda>i. (pos (ns ! i), BS_POS)) (filter
        (\<lambda>i. alive (ns ! i)
             \<and> teen_trigger (sns (k + length (filter alive (take i ns)))) hard_th soft_th
             \<and> alive (ns1 ! i)) [0..<length ns])"
proof (induction ns arbitrary: k paths delivered ns1)
  case Nil
  then show ?case by simp
next
  case (Cons n ns)
  let ?sent = "alive n \<and> teen_trigger (sns k) hard_th soft_th"
  let ?n1 = "if ?sent then use_energy n (TX_COST * (distance (pos n) BS_POS / 55)) else n"
  let ?k = "if alive n then Suc k else k"
  define counted where "counted = (?sent \<and> alive ?n1)"
  let ?paths = "if counted then paths @ [(pos n, BS_POS)] else paths"
  let ?delivered = "if counted then delivered + packets else delivered"
  have step: "teen_step packets hard_th soft_th sns n (k, paths, delivered)
                = (?n1, ?k, ?paths, ?delivered)"
    by (auto simp: teen_step_acc Let_def counted_def use_energy_pos)
  obtain ns2 where
    rest: "teen_loop packets hard_th soft_th sns ns (?k, ?paths, ?delivered)
             = (ns2, k1, paths1, delivered1)" and ns1: "ns1 = ?n1 # ns2"
    using Cons.prems unfolding teen_loop.simps step by (auto split: prod.splits)
  let ?P = "\<lambda>i. alive ((n # ns) ! i)
             \<and> teen_trigger (sns (k + length (filter alive (take i (n # ns))))) hard_th soft_th
             \<and> alive (ns1 ! i)"
  let ?Q = "\<lambda>i. alive (ns ! i)
             \<and> teen_trigger (sns (?k + length (filter alive (take i ns)))) hard_th soft_th
             \<and> alive (ns2 ! i)"
  have PQ: "?P (Suc i) = ?Q i" for i
    using ns1 by simp
  have P0: "?P 0 = counted"
    using ns1 by (simp add: counted_def)
  have "(\<lambda>i. ?P (Suc i)) = ?Q"
    by (intro ext) (rule PQ)
  then have shift: "filter ?P [0..<Suc (length ns)]
          = (if ?P 0 then [0] else []) @ map Suc (filter ?Q [0..<length ns])"
    by (simp only: filter_upt_Suc_shift[of ?P "length ns"])
  have edges: "map (\<lambda>i. (pos ((n # ns) ! i), BS_POS)) (filter ?P [0..<length (n # ns)])
          = (if counted then [(pos n, BS_POS)] else [])
            @ map (\<lambda>i. (pos (ns ! i), BS_POS)) (filter ?Q [0..<length ns])"
    unfolding length_Cons shift P0 by (auto simp: o_def)
  from Cons.IH[OF rest]
  have "paths1 = ?paths @ map (\<lambda>i. (pos (ns ! i), BS_POS)) (filter ?Q [0..<length ns])" .
  then show ?case unfolding edges by simp
qed

section \<open>The claims\<close>

text \<open>
  C1. In every run of any protocol, from any state and over any number of rounds, the run
  returns, a node that is dead before is dead after, and each node of the result is the
  node it was after calls of the energy-debit operation only. The debit itself never
  revives a node.
\<close>

theorem alive_monotone:
  "\<exists>s1. sim_loop proto packets hard soft rs s = Some s1
      \<and> debits (sim_nodes s) (sim_nodes s1)
      \<and> (\<forall>i < length (sim_nodes s). \<not> alive (sim_nodes s ! i) \<longrightarrow> \<not> alive (sim_nodes s1 ! i))
      \<and> (alive (use_energy n a) \<longrightarrow> alive n)"
proof -
  from sim_loop_spec[of proto packets hard soft rs s] obtain s1 where
    s1: "sim_loop proto packets hard soft rs s = Some s1" "debits (sim_nodes s) (sim_nodes s1)"
    by blast
  have "\<not> alive (sim_nodes s1 ! i)" if "i < length (sim_nodes s)" "\<not> alive (sim_nodes s ! i)" for i
    using debits_nth[OF s1(2) that(1)] that(2) by (auto dest: node_debits_alive)
  moreover have "alive (use_energy n a) \<longrightarrow> alive n"
    by (simp add: use_energy_def Let_def)
  ultimately show ?thesis using s1 by blast
qed

theorem alive_monotone_witness:
  "\<not> alive ([\<lparr>id_n = 0, pos = (50, 55), energy = 1, alive = True\<rparr>,
              \<lparr>id_n = 1, pos = (10, 20), energy = 0, alive = False\<rparr>] ! 1)
   \<and> (\<exists>s1. sim_loop LEACH 3 50 5 [\<lparr>pick = \<lambda>i. 0, sense = \<lambda>k. 70\<rparr>, \<lparr>pick = \<lambda>i. 1, sense = \<lambda>k. 30\<rparr>]
         \<lparr>sim_nodes = [\<lparr>id_n = 0, pos = (50, 55), energy = 1, alive = True\<rparr>,
                       \<lparr>id_n = 1, pos = (10, 20), energy = 0, alive = False\<rparr>],
          sim_paths = [], delivered_total = 0, dead_history = [], energy_history = []\<rparr> = Some s1
        \<and> \<not> alive (sim_nodes s1 ! 1))
   \<and> alive (use_energy \<lparr>id_n = 0, pos = (50, 55), energy = 1, alive = True\<rparr> (3 / 10))
   \<and> alive \<lparr>id_n = 0, pos = (50, 55), energy = 1, alive = True\<rparr>"
proof -
  let ?s = "\<lparr>sim_nodes = [\<lparr>id_n = 0, pos = (50, 55), energy = 1, alive = True\<rparr>,
                       \<lparr>id_n = 1, pos = (10, 20), energy = 0, alive = False\<rparr>],
          sim_paths = [], delivered_total = 0, dead_history = [], energy_history = []\<rparr>"
  let ?n = "\<lparr>id_n = 0, pos = (50, 55), energy = 1, alive = True\<rparr>"
  have u: "alive (use_energy ?n (3 / 10))"
    by (simp add: use_energy_def)
  from alive_monotone[of LEACH 3 50 5
      "[\<lparr>pick = \<lambda>i. 0, sense = \<lambda>k. 70\<rparr>, \<lparr>pick = \<lambda>i. 1, sense = \<lambda>k. 30\<rparr>]" ?s ?n "3 / 10"]
  obtain s1 where
    "sim_loop LEACH 3 50 5 [\<lparr>pick = \<lambda>i. 0, sense = \<lambda>k. 70\<rparr>, \<lparr>pick = \<lambda>i. 1, sense = \<lambda>k. 30\<rparr>] ?s
       = Some s1"
    "\<forall>i < length (sim_nodes ?s). \<not> alive (sim_nodes ?s ! i) \<longrightarrow> \<not> alive (sim_nodes s1 ! i)"
    "alive (use_energy ?n (3 / 10)) \<longrightarrow> alive ?n"
    by blast
  with u show ?thesis by auto
qed

text \<open>
  C2. For every protocol and every run, from any population, the run returns, the series
  of total residual energy has one entry per round, each entry is at most the entry before
  it (and at most the total before the first round, and not negative), and no node ends with
  more energy than it started with; a run of one round is the case of a single round.
\<close>

theorem residual_energy_nonincreasing:
  "\<exists>s. run_simulation proto nodes packets hard soft rs = Some s
      \<and> length (energy_history s) = length rs
      \<and> (\<forall>k. Suc k < length rs \<longrightarrow> energy_history s ! Suc k \<le> energy_history s ! k)
      \<and> (\<forall>k < length rs. 0 \<le> energy_history s ! k
             \<and> energy_history s ! k \<le> total_residual_energy nodes)
      \<and> (\<forall>i < length nodes. energy (sim_nodes s ! i) \<le> energy (nodes ! i))"
proof -
  let ?s0 = "\<lparr>sim_nodes = nodes, sim_paths = [], delivered_total = 0,
              dead_history = [], energy_history = []\<rparr>"
  from sim_loop_spec[of proto packets hard soft rs ?s0] obtain s ext where
    s: "sim_loop proto packets hard soft rs ?s0 = Some s" "debits nodes (sim_nodes s)"
       "energy_history s = ext" "length ext = length rs" "sorted_wrt (\<ge>) ext"
       "\<forall>e \<in> set ext. 0 \<le> e \<and> e \<le> total_residual_energy nodes"
    by auto
  have "energy_history s ! Suc k \<le> energy_history s ! k" if "Suc k < length rs" for k
    using sorted_wrt_nth_less[OF s(5), of k "Suc k"] that s(3,4) by simp
  moreover have "0 \<le> energy_history s ! k \<and> energy_history s ! k \<le> total_residual_energy nodes"
    if "k < length rs" for k
    using s(3,4,6) that by (metis nth_mem)
  moreover have "energy (sim_nodes s ! i) \<le> energy (nodes ! i)" if "i < length nodes" for i
    using debits_nth[OF s(2) that] by (rule node_debits_energy)
  ultimately show ?thesis
    using s(1,3,4) by (simp add: run_simulation_def)
qed

theorem residual_energy_nonincreasing_witness:
  "\<exists>s. run_simulation Direct [\<lparr>id_n = 0, pos = (50, 55), energy = 1, alive = True\<rparr>] 3 50 5
          [\<lparr>pick = \<lambda>i. 0, sense = \<lambda>k. 70\<rparr>, \<lparr>pick = \<lambda>i. 0, sense = \<lambda>k. 70\<rparr>] = Some s
      \<and> energy_history s = [976 / 1000, 952 / 1000]
      \<and> energy_history s ! Suc 0 \<le> energy_history s ! 0
      \<and> 0 \<le> energy_history s ! 0 \<and> energy_history s ! 0 \<le> 1
      \<and> energy (sim_nodes s ! 0) \<le> 1"
proof -
  from residual_energy_nonincreasing[of Direct
      "[\<lparr>id_n = 0, pos = (50, 55), energy = 1, alive = True\<rparr>]" 3 50 5
      "[\<lparr>pick = \<lambda>i. 0, sense = \<lambda>k. 70\<rparr>, \<lparr>pick = \<lambda>i. 0, sense = \<lambda>k. 70\<rparr>]"]
  obtain s where
    s: "run_simulation Direct [\<lparr>id_n = 0, pos = (50, 55), energy = 1, alive = True\<rparr>] 3 50 5
          [\<lparr>pick = \<lambda>i. 0, sense = \<lambda>k. 70\<rparr>, \<lparr>pick = \<lambda>i. 0, sense = \<lambda>k. 70\<rparr>] = Some s"
       "\<forall>k. Suc k < length [\<lparr>pick = \<lambda>i. 0, sense = \<lambda>k. 70::real\<rparr>, \<lparr>pick = \<lambda>i. 0, sense = \<lambda>k. 70\<rparr>]
          \<longrightarrow> energy_history s ! Suc k \<le> energy_history s ! k"
       "\<forall>k < length [\<lparr>pick = \<lambda>i. 0, sense = \<lambda>k. 70::real\<rparr>, \<lparr>pick = \<lambda>i. 0, sense = \<lambda>k. 70\<rparr>].
          0 \<le> energy_history s ! k
          \<and> energy_history s ! k
              \<le> total_residual_energy [\<lparr>id_n = 0, pos = (50, 55), energy = 1, alive = True\<rparr>]"
       "\<forall>i < length [\<lparr>id_n = 0, pos = (50, 55), energy = 1, alive = True\<rparr>].
          energy (sim_nodes s ! i)
            \<le> energy ([\<lparr>id_n = 0, pos = (50, 55), energy = 1, alive = True\<rparr>] ! i)"
    by blast
  from s(2) have "energy_history s ! Suc 0 \<le> energy_history s ! 0" by simp
  moreover from s(3) have "0 \<le> energy_history s ! 0 \<and> energy_history s ! 0 \<le> 1"
    by (simp add: total_residual_energy_def)
  moreover from s(4) have "energy (sim_nodes s ! 0) \<le> 1" by simp
  moreover from s(1) have "energy_history s = [976 / 1000, 952 / 1000]"
    by (auto simp: run_simulation_def direct_routing_def direct_step_def use_energy_def
          Let_def distance_50_55 TX_COST_def total_residual_energy_def)
  ultimately show ?thesis using s(1) by blast
qed

text \<open>
  C3. On a dead node the energy debit changes nothing, for any amount and for any number
  of calls in a row.
\<close>

theorem use_energy_dead_noop:
  "\<not> alive n \<Longrightarrow> use_energy n amount = n \<and> foldl use_energy n amounts = n"
proof -
  assume dead: "\<not> alive n"
  then have one: "use_energy n a = n" for a by (simp add: use_energy_def)
  have "foldl use_energy n amounts = n"
    by (induction amounts) (simp_all add: one)
  with one show ?thesis by simp
qed

theorem use_energy_dead_noop_witness:
  "\<not> alive \<lparr>id_n = 4, pos = (10, 20), energy = - 1 / 100, alive = False\<rparr>
   \<and> use_energy \<lparr>id_n = 4, pos = (10, 20), energy = - 1 / 100, alive = False\<rparr> (3 / 10)
       = \<lparr>id_n = 4, pos = (10, 20), energy = - 1 / 100, alive = False\<rparr>
   \<and> foldl use_energy \<lparr>id_n = 4, pos = (10, 20), energy = - 1 / 100, alive = False\<rparr> [3 / 10, 0, 2]
       = \<lparr>id_n = 4, pos = (10, 20), energy = - 1 / 100, alive = False\<rparr>"
proof -
  have dead: "\<not> alive \<lparr>id_n = 4, pos = (10, 20), energy = - 1 / 100, alive = False\<rparr>"
    by simp
  from use_energy_dead_noop[OF dead, of "3 / 10" "[3 / 10, 0, 2]"] dead
  show ?thesis by blast
qed

text \<open>
  C4, as the code has it. Direct and TEEN count a transmission only when its sender is still
  alive after its own debit: a Direct round delivers \<open>packets\<close> times the number of nodes
  alive after the round (and has exactly their edges), and a TEEN round delivers \<open>packets\<close>
  times the number of nodes that were alive, triggered on their draw and are alive after the
  round. PEGASIS counts the packets of the chain's last node whenever a node is alive at the
  start, and LEACH counts the packets of every cluster head, with no regard to survival.
\<close>

theorem delivered_survival_gate:
  "(case direct_routing nodes packets of
      (nodes1, paths, delivered) \<Rightarrow>
        delivered = packets * int (length (filter alive nodes1))
        \<and> paths = map (\<lambda>n. (pos n, BS_POS)) (filter alive nodes1))
   \<and> (case teen nodes packets hard_th soft_th sns of
      (nodes1, paths, delivered) \<Rightarrow>
        delivered = packets * int (length (filter
          (\<lambda>i. alive (nodes ! i)
               \<and> teen_trigger (sns (length (filter alive (take i nodes)))) hard_th soft_th
               \<and> alive (nodes1 ! i)) [0..<length nodes])))
   \<and> snd (snd (pegasis nodes packets)) = (if \<exists>n \<in> set nodes. alive n then packets else 0)
   \<and> (distinct (map id_n nodes) \<and> (\<exists>n \<in> set nodes. alive n) \<longrightarrow>
        (\<exists>nodes1 paths. leach nodes packets pk
           = Some (nodes1, paths, packets * int (num_ch (length (filter alive nodes))))))"
proof -
  obtain d1 dp dd where d: "direct_routing nodes packets = (d1, dp, dd)"
    by (metis prod_cases3)
  then have "direct_loop packets nodes ([], 0) = (d1, dp, dd)"
    by (simp add: direct_routing_def)
  from direct_loop_delivered[OF this]
  have direct: "dd = packets * int (length (filter alive d1))"
    "dp = map (\<lambda>n. (pos n, BS_POS)) (filter alive d1)"
    by simp_all
  obtain t1 tk tp td where t: "teen_loop packets hard_th soft_th sns nodes (0, [], 0) = (t1, tk, tp, td)"
    by (metis prod_cases4)
  from teen_loop_delivered[OF this]
  have teen: "td = packets * int (length (filter
          (\<lambda>i. alive (nodes ! i)
               \<and> teen_trigger (sns (length (filter alive (take i nodes)))) hard_th soft_th
               \<and> alive (t1 ! i)) [0..<length nodes]))"
    by simp
  have peg: "snd (snd (pegasis nodes packets)) = (if \<exists>n \<in> set nodes. alive n then packets else 0)"
    using alive_idx_nonempty[of nodes] by (auto simp: pegasis_delivered)
  have leach: "\<exists>nodes1 paths. leach nodes packets pk
           = Some (nodes1, paths, packets * int (num_ch (length (filter alive nodes))))"
    if "distinct (map id_n nodes)" "\<exists>n \<in> set nodes. alive n"
  proof -
    from that(2) have "alive_idx nodes \<noteq> []" by (simp add: alive_idx_nonempty)
    from leach_count[OF that(1) this, of packets pk] show ?thesis
      by (auto simp: alive_idx_length)
  qed
  from direct teen peg leach show ?thesis
    by (simp add: d teen_def t)
qed

theorem delivered_survival_gate_witness:
  "(let nodes = [\<lparr>id_n = 0, pos = (50, 55), energy = 1 / 100, alive = True\<rparr>,
                 \<lparr>id_n = 1, pos = (50, 55), energy = 1, alive = True\<rparr>]
    in direct_routing nodes 3
         = ([\<lparr>id_n = 0, pos = (50, 55), energy = - 14 / 1000, alive = False\<rparr>,
             \<lparr>id_n = 1, pos = (50, 55), energy = 976 / 1000, alive = True\<rparr>],
            [((50, 55), BS_POS)], 3)
     \<and> (case direct_routing nodes 3 of
          (nodes1, paths, delivered) \<Rightarrow> delivered = 3 * int (length (filter alive nodes1)))
     \<and> distinct (map id_n nodes) \<and> list_ex alive nodes
     \<and> (\<exists>nodes1 paths. leach nodes 3 (\<lambda>i. 0) = Some (nodes1, paths, 3)))"
proof -
  let ?nodes = "[\<lparr>id_n = 0, pos = (50, 55), energy = 1 / 100, alive = True\<rparr>,
                 \<lparr>id_n = 1, pos = (50, 55), energy = 1, alive = True\<rparr>]"
  have h: "distinct (map id_n ?nodes) \<and> (\<exists>n \<in> set ?nodes. alive n)" by simp
  have e: "direct_routing ?nodes 3
         = ([\<lparr>id_n = 0, pos = (50, 55), energy = - 14 / 1000, alive = False\<rparr>,
             \<lparr>id_n = 1, pos = (50, 55), energy = 976 / 1000, alive = True\<rparr>],
            [((50, 55), BS_POS)], 3)"
    by (simp add: direct_routing_def direct_step_def use_energy_def Let_def distance_50_55
          TX_COST_def)
  from delivered_survival_gate[where nodes = ?nodes and packets = 3 and hard_th = 50
      and soft_th = 5 and sns = "\<lambda>k. 70" and pk = "\<lambda>i. 0"] h
  have "case direct_routing ?nodes 3 of
          (nodes1, paths, delivered) \<Rightarrow> delivered = 3 * int (length (filter alive nodes1))"
    and "\<exists>nodes1 paths. leach ?nodes 3 (\<lambda>i. 0) = Some (nodes1, paths, 3 * int (num_ch (length (filter alive ?nodes))))"
    by (auto simp del: distinct.simps)
  then show ?thesis using e by (simp add: Let_def num_ch_def)
qed

text \<open>
  The claim as stated fails for LEACH and for PEGASIS. A single alive node with energy 0.01
  at distance 60 from the base station is the only cluster head (and the whole chain); its
  debit of 0.02 kills it, and the round still counts its three packets as delivered.
\<close>

theorem delivered_survival_gate_counterexample:
  "leach [\<lparr>id_n = 0, pos = (50, 55), energy = 1 / 100, alive = True\<rparr>] 3 (\<lambda>i. 0)
     = Some ([\<lparr>id_n = 0, pos = (50, 55), energy = - 1 / 100, alive = False\<rparr>],
             [((50, 55), BS_POS)], 3)
   \<and> pegasis [\<lparr>id_n = 0, pos = (50, 55), energy = 1 / 100, alive = True\<rparr>] 3
     = ([\<lparr>id_n = 0, pos = (50, 55), energy = - 1 / 100, alive = False\<rparr>],
        [((50, 55), BS_POS)], 3)
   \<and> \<not> alive \<lparr>id_n = 0, pos = (50, 55), energy = - 1 / 100, alive = False\<rparr>"
  by (simp add: leach_def cluster_heads_of_def pegasis_def alive_idx_def num_ch_def is_head_def
        use_energy_at_def use_energy_def Let_def distance_50_55 TX_COST_def)

text \<open>
  C5. When no node is alive at the start of a round, each of the four protocols returns the
  node collection as it was, no edge and zero delivered packets; none of them raises.
\<close>

theorem no_alive_round_unchanged:
  assumes "\<forall>n \<in> set nodes. \<not> alive n"
  shows "direct_routing nodes packets = (nodes, [], 0)
       \<and> leach nodes packets pk = Some (nodes, [], 0)
       \<and> pegasis nodes packets = (nodes, [], 0)
       \<and> teen nodes packets hard_th soft_th sns = (nodes, [], 0)
       \<and> run_round proto nodes packets hard_th soft_th r = Some (nodes, [], 0)"
proof -
  have d: "direct_routing nodes packets = (nodes, [], 0)"
    by (simp add: direct_routing_def direct_loop_dead[OF assms])
  have l: "leach nodes packets pk = Some (nodes, [], 0)" for pk
    by (simp add: leach_def alive_idx_dead[OF assms])
  have p: "pegasis nodes packets = (nodes, [], 0)"
    by (simp add: pegasis_def alive_idx_dead[OF assms])
  have t: "teen nodes packets hard_th soft_th sns = (nodes, [], 0)" for sns
    by (simp add: teen_def teen_loop_dead[OF assms])
  have "run_round proto nodes packets hard_th soft_th r = Some (nodes, [], 0)"
    by (cases proto) (simp_all add: d l p t)
  with d l p t show ?thesis by simp
qed

theorem no_alive_round_unchanged_witness:
  "(let nodes = [\<lparr>id_n = 0, pos = (3, 4), energy = 0, alive = False\<rparr>,
                 \<lparr>id_n = 1, pos = (70, 20), energy = - 1 / 50, alive = False\<rparr>]
    in list_all (\<lambda>n. \<not> alive n) nodes
     \<and> direct_routing nodes 3 = (nodes, [], 0)
     \<and> leach nodes 3 (\<lambda>i. 0) = Some (nodes, [], 0)
     \<and> pegasis nodes 3 = (nodes, [], 0)
     \<and> teen nodes 3 50 5 (\<lambda>k. 70) = (nodes, [], 0))"
proof -
  let ?nodes = "[\<lparr>id_n = 0, pos = (3, 4), energy = 0, alive = False\<rparr>,
                 \<lparr>id_n = 1, pos = (70, 20), energy = - 1 / 50, alive = False\<rparr>]"
  have dead: "\<forall>n \<in> set ?nodes. \<not> alive n" by simp
  from no_alive_round_unchanged[OF dead, of 3 "\<lambda>i. 0" 50 5 "\<lambda>k. 70"] dead
  show ?thesis by (simp add: Let_def)
qed

text \<open>
  C6. In a LEACH round with at least one alive node, the sample of cluster heads is drawn
  without raising, has exactly \<open>max 1 (alive_count div 10)\<close> members, has no member twice,
  and every member is a node alive at the start of the round. With one alive node the sample
  is that node; the round debits it for its hop to the base station, records the edge from
  it to the base station and counts its packets.
\<close>

theorem leach_cluster_heads:
  "((\<exists>n \<in> set nodes. alive n) \<longrightarrow>
      (\<exists>hs. cluster_heads_of nodes pk = Some hs
         \<and> length hs = max 1 (length (filter alive nodes) div 10)
         \<and> distinct hs
         \<and> (\<forall>c \<in> set hs. c < length nodes \<and> alive (nodes ! c))))
   \<and> (alive_idx nodes = [i] \<longrightarrow>
        cluster_heads_of nodes pk = Some [i]
        \<and> leach nodes packets pk
            = Some (use_energy_at i (TX_COST * (distance (pos (nodes ! i)) BS_POS / 60)) nodes,
                    [(pos (nodes ! i), BS_POS)], packets))"
proof -
  have "\<exists>hs. cluster_heads_of nodes pk = Some hs
         \<and> length hs = max 1 (length (filter alive nodes) div 10)
         \<and> distinct hs
         \<and> (\<forall>c \<in> set hs. c < length nodes \<and> alive (nodes ! c))"
    if "\<exists>n \<in> set nodes. alive n"
  proof -
    from that have "alive_idx nodes \<noteq> []" by (simp add: alive_idx_nonempty)
    from cluster_heads_Some[OF this, of pk] obtain hs where
      hs: "cluster_heads_of nodes pk = Some hs" "length hs = num_ch (length (alive_idx nodes))"
          "set hs \<subseteq> set (alive_idx nodes)" "distinct hs"
      by blast
    from hs(3) have "\<forall>c \<in> set hs. c < length nodes \<and> alive (nodes ! c)"
      by (auto simp: alive_idx_set)
    with hs(1,2,4) show ?thesis
      by (simp add: num_ch_def alive_idx_length)
  qed
  moreover have "cluster_heads_of nodes pk = Some [i]
        \<and> leach nodes packets pk
            = Some (use_energy_at i (TX_COST * (distance (pos (nodes ! i)) BS_POS / 60)) nodes,
                    [(pos (nodes ! i), BS_POS)], packets)"
    if "alive_idx nodes = [i]"
    using leach_single[OF that] by simp
  ultimately show ?thesis by blast
qed

theorem leach_cluster_heads_witness:
  "(let nodes = [\<lparr>id_n = 0, pos = (10, 20), energy = 0, alive = False\<rparr>,
                 \<lparr>id_n = 1, pos = (50, 55), energy = 1, alive = True\<rparr>]
    in list_ex alive nodes \<and> alive_idx nodes = [1]
     \<and> cluster_heads_of nodes (\<lambda>i. 7) = Some [1]
     \<and> leach nodes 3 (\<lambda>i. 7)
         = Some ([\<lparr>id_n = 0, pos = (10, 20), energy = 0, alive = False\<rparr>,
                  \<lparr>id_n = 1, pos = (50, 55), energy = 98 / 100, alive = True\<rparr>],
                 [((50, 55), BS_POS)], 3))"
proof -
  let ?nodes = "[\<lparr>id_n = 0, pos = (10, 20), energy = 0, alive = False\<rparr>,
                 \<lparr>id_n = 1, pos = (50, 55), energy = 1, alive = True\<rparr>]"
  have h: "\<exists>n \<in> set ?nodes. alive n" "alive_idx ?nodes = [1]"
    by (simp_all add: alive_idx_def)
  from leach_cluster_heads[where nodes = ?nodes and pk = "\<lambda>i. 7" and i = 1 and packets = 3] h
  have "cluster_heads_of ?nodes (\<lambda>i. 7) = Some [1]"
    and "leach ?nodes 3 (\<lambda>i. 7)
          = Some (use_energy_at 1 (TX_COST * (distance (pos (?nodes ! 1)) BS_POS / 60)) ?nodes,
                  [(pos (?nodes ! 1), BS_POS)], 3)"
    by blast+
  with h show ?thesis
    by (simp add: Let_def use_energy_at_def use_energy_def distance_50_55 TX_COST_def)
qed

text \<open>
  C7. A node at the base station's coordinates that is alive with positive energy (as every
  alive node of a created population is) is debited 0 by Direct routing, stays as it is, and
  adds its packets and its edge in the round. A population of this one node, run for any
  number of rounds, delivers \<open>packets\<close> each round and records no dead node; with one
  round and five packets that is a total of 5 and the dead series \<open>[0]\<close>.
\<close>

theorem direct_at_base_station_delivers:
  assumes "pos n = BS_POS" "alive n" "0 < energy n"
  shows "TX_COST * (distance (pos n) BS_POS / 50) = 0
       \<and> direct_step packets n (paths, delivered)
           = (n, paths @ [(BS_POS, BS_POS)], delivered + packets)
       \<and> (\<exists>s. run_simulation Direct [n] packets hard soft rs = Some s
              \<and> sim_nodes s = [n]
              \<and> delivered_total s = int (length rs) * packets
              \<and> dead_history s = replicate (length rs) 0)"
proof -
  let ?s0 = "\<lparr>sim_nodes = [n], sim_paths = [], delivered_total = 0,
              dead_history = [], energy_history = []\<rparr>"
  have "sim_nodes ?s0 = [n]" by simp
  from sim_loop_at_BS[OF assms this, of packets hard soft rs]
  have "\<exists>s. run_simulation Direct [n] packets hard soft rs = Some s
              \<and> sim_nodes s = [n]
              \<and> delivered_total s = int (length rs) * packets
              \<and> dead_history s = replicate (length rs) 0"
    by (simp add: run_simulation_def)
  moreover have "TX_COST * (distance (pos n) BS_POS / 50) = 0"
    using assms(1) by (simp add: distance_BS)
  ultimately show ?thesis
    using direct_step_at_BS[OF assms] by simp
qed

theorem direct_at_base_station_delivers_witness:
  "create_nodes 1 (\<lambda>i. 50) (\<lambda>i. 115)
     = [\<lparr>id_n = 0, pos = BS_POS, energy = INITIAL_ENERGY, alive = True\<rparr>]
   \<and> (\<exists>s. run_simulation Direct (create_nodes 1 (\<lambda>i. 50) (\<lambda>i. 115)) 5 50 5
             [\<lparr>pick = \<lambda>i. 0, sense = \<lambda>k. 70\<rparr>] = Some s
          \<and> delivered_total s = 5 \<and> dead_history s = [0])"
proof -
  let ?n = "\<lparr>id_n = 0, pos = BS_POS, energy = INITIAL_ENERGY, alive = True\<rparr>"
  have c: "create_nodes 1 (\<lambda>i. 50) (\<lambda>i. 115) = [?n]"
    by (simp add: create_nodes_def BS_POS_def)
  have h: "pos ?n = BS_POS" "alive ?n" "0 < energy ?n"
    by (simp_all add: INITIAL_ENERGY_def)
  from direct_at_base_station_delivers[OF h, of 5 "[]" 0 50 5 "[\<lparr>pick = \<lambda>i. 0, sense = \<lambda>k. 70\<rparr>]"]
  obtain s where
    "run_simulation Direct [?n] 5 50 5 [\<lparr>pick = \<lambda>i. 0, sense = \<lambda>k. 70\<rparr>] = Some s"
    "delivered_total s = 5" "dead_history s = [0]"
    by auto
  with c show ?thesis by simp
qed

text \<open>
  C8, as the code has it. In a TEEN round with hard threshold 0 and sensed values in
  \<open>[0, 100]\<close>, the node at position \<open>i\<close> transmits exactly when it is alive and its draw
  is at least the soft threshold: then it is debited its transmit cost to the base station,
  otherwise the round leaves it as it was. The edges and the delivered count come from the
  transmitting nodes that are alive after their debit, and from no other node. The draw of
  a node is the one numbered by the alive nodes before it. In a round whose draws are all
  at least the soft threshold every alive node transmits.
\<close>

theorem teen_hard0_transmits:
  "((\<forall>k. 0 \<le> sns k) \<longrightarrow>
     (case teen nodes packets 0 soft_th sns of
        (nodes1, paths, delivered) \<Rightarrow>
          length nodes1 = length nodes
          \<and> (\<forall>i < length nodes. nodes1 ! i =
                (if alive (nodes ! i) \<and> soft_th \<le> sns (length (filter alive (take i nodes)))
                 then use_energy (nodes ! i) (TX_COST * (distance (pos (nodes ! i)) BS_POS / 55))
                 else nodes ! i))
          \<and> paths = map (\<lambda>i. (pos (nodes ! i), BS_POS)) (filter
                (\<lambda>i. alive (nodes ! i) \<and> soft_th \<le> sns (length (filter alive (take i nodes)))
                     \<and> alive (nodes1 ! i)) [0..<length nodes])
          \<and> delivered = packets * int (length (filter
                (\<lambda>i. alive (nodes ! i) \<and> soft_th \<le> sns (length (filter alive (take i nodes)))
                     \<and> alive (nodes1 ! i)) [0..<length nodes]))
          \<and> ((\<forall>k. soft_th \<le> sns k) \<longrightarrow>
                nodes1 = map (\<lambda>n. use_energy n (TX_COST * (distance (pos n) BS_POS / 55))) nodes)))
   \<and> (0 \<le> sensed \<longrightarrow> teen_trigger sensed 0 soft_th = (soft_th \<le> sensed))"
proof -
  have round: "case teen nodes packets 0 soft_th sns of
        (nodes1, paths, delivered) \<Rightarrow>
          length nodes1 = length nodes
          \<and> (\<forall>i < length nodes. nodes1 ! i =
                (if alive (nodes ! i) \<and> soft_th \<le> sns (length (filter alive (take i nodes)))
                 then use_energy (nodes ! i) (TX_COST * (distance (pos (nodes ! i)) BS_POS / 55))
                 else nodes ! i))
          \<and> paths = map (\<lambda>i. (pos (nodes ! i), BS_POS)) (filter
                (\<lambda>i. alive (nodes ! i) \<and> soft_th \<le> sns (length (filter alive (take i nodes)))
                     \<and> alive (nodes1 ! i)) [0..<length nodes])
          \<and> delivered = packets * int (length (filter
                (\<lambda>i. alive (nodes ! i) \<and> soft_th \<le> sns (length (filter alive (take i nodes)))
                     \<and> alive (nodes1 ! i)) [0..<length nodes]))
          \<and> ((\<forall>k. soft_th \<le> sns k) \<longrightarrow>
                nodes1 = map (\<lambda>n. use_energy n (TX_COST * (distance (pos n) BS_POS / 55))) nodes)"
    if nonneg: "\<forall>k. 0 \<le> sns k"
  proof -
    obtain t1 tk tp td where
      t: "teen_loop packets 0 soft_th sns nodes (0, [], 0) = (t1, tk, tp, td)"
      by (metis prod_cases4)
    have trig: "teen_trigger (sns k) 0 soft_th = (soft_th \<le> sns k)" for k
      using nonneg by (simp add: teen_trigger_hard0)
    from teen_loop_nodes[OF t] have
      n1: "length t1 = length nodes"
      and n2: "\<forall>i < length nodes. t1 ! i =
                (if alive (nodes ! i) \<and> soft_th \<le> sns (length (filter alive (take i nodes)))
                 then use_energy (nodes ! i) (TX_COST * (distance (pos (nodes ! i)) BS_POS / 55))
                 else nodes ! i)"
      by (simp_all add: trig)
    from teen_loop_paths[OF t] have
      p: "tp = map (\<lambda>i. (pos (nodes ! i), BS_POS)) (filter
                (\<lambda>i. alive (nodes ! i) \<and> soft_th \<le> sns (length (filter alive (take i nodes)))
                     \<and> alive (t1 ! i)) [0..<length nodes])"
      by (simp add: trig)
    from teen_loop_delivered[OF t] have
      d: "td = packets * int (length (filter
                (\<lambda>i. alive (nodes ! i) \<and> soft_th \<le> sns (length (filter alive (take i nodes)))
                     \<and> alive (t1 ! i)) [0..<length nodes]))"
      by (simp add: trig)
    have a: "t1 = map (\<lambda>n. use_energy n (TX_COST * (distance (pos n) BS_POS / 55))) nodes"
      if "\<forall>k. soft_th \<le> sns k"
    proof -
      from that have "\<forall>k. teen_trigger (sns k) 0 soft_th" by (simp add: trig)
      from teen_loop_all_trigger[OF this, of packets nodes "(0, [], 0)"] t
      show ?thesis by simp
    qed
    from n1 n2 p d a show ?thesis
      by (simp add: teen_def t)
  qed
  then show ?thesis by (simp add: teen_trigger_hard0)
qed

theorem teen_hard0_transmits_witness:
  "(let nodes = [\<lparr>id_n = 0, pos = (50, 55), energy = 1, alive = True\<rparr>,
                 \<lparr>id_n = 1, pos = (10, 20), energy = 0, alive = False\<rparr>,
                 \<lparr>id_n = 2, pos = (50, 55), energy = 1, alive = True\<rparr>];
        sns = (\<lambda>k. if k = 0 then 70 else 1 / 2 :: real)
    in (0::real) \<le> sns 0 \<and> 5 \<le> sns 0 \<and> 0 \<le> sns 1 \<and> \<not> 5 \<le> sns 1
     \<and> teen nodes 3 0 5 sns
         = ([\<lparr>id_n = 0, pos = (50, 55), energy = 269 / 275, alive = True\<rparr>,
             \<lparr>id_n = 1, pos = (10, 20), energy = 0, alive = False\<rparr>,
             \<lparr>id_n = 2, pos = (50, 55), energy = 1, alive = True\<rparr>],
            [((50, 55), BS_POS)], 3)
     \<and> (case teen nodes 3 0 5 sns of
          (nodes1, paths, delivered) \<Rightarrow>
            nodes1 ! 0 = use_energy (nodes ! 0) (TX_COST * (distance (pos (nodes ! 0)) BS_POS / 55))
            \<and> nodes1 ! 1 = nodes ! 1 \<and> nodes1 ! 2 = nodes ! 2)
     \<and> teen_trigger 70 0 5)"
proof -
  let ?nodes = "[\<lparr>id_n = 0, pos = (50, 55), energy = 1, alive = True\<rparr>,
                 \<lparr>id_n = 1, pos = (10, 20), energy = 0, alive = False\<rparr>,
                 \<lparr>id_n = 2, pos = (50, 55), energy = 1, alive = True\<rparr>]"
  let ?sns = "\<lambda>k::nat. if k = 0 then 70 else 1 / 2 :: real"
  have h: "\<forall>k. 0 \<le> ?sns k" by simp
  have e: "teen ?nodes 3 0 5 ?sns
         = ([\<lparr>id_n = 0, pos = (50, 55), energy = 269 / 275, alive = True\<rparr>,
             \<lparr>id_n = 1, pos = (10, 20), energy = 0, alive = False\<rparr>,
             \<lparr>id_n = 2, pos = (50, 55), energy = 1, alive = True\<rparr>],
            [((50, 55), BS_POS)], 3)"
    by (simp add: teen_def teen_step_def teen_trigger_def use_energy_def Let_def
          distance_50_55 TX_COST_def)
  from teen_hard0_transmits[where sns = ?sns and nodes = ?nodes and packets = 3
      and soft_th = 5 and sensed = 70] h
  have r: "case teen ?nodes 3 0 5 ?sns of
        (nodes1, paths, delivered) \<Rightarrow>
          (\<forall>i < length ?nodes. nodes1 ! i =
                (if alive (?nodes ! i) \<and> 5 \<le> ?sns (length (filter alive (take i ?nodes)))
                 then use_energy (?nodes ! i) (TX_COST * (distance (pos (?nodes ! i)) BS_POS / 55))
                 else ?nodes ! i))"
    and t: "teen_trigger 70 0 5"
    by (auto simp del: teen_def split: prod.splits)
  obtain nodes1 paths delivered where
    res: "teen ?nodes 3 0 5 ?sns = (nodes1, paths, delivered)"
    by (metis prod_cases3)
  with r have all: "\<forall>i < length ?nodes. nodes1 ! i =
                (if alive (?nodes ! i) \<and> 5 \<le> ?sns (length (filter alive (take i ?nodes)))
                 then use_energy (?nodes ! i) (TX_COST * (distance (pos (?nodes ! i)) BS_POS / 55))
                 else ?nodes ! i)"
    by simp
  from all have "nodes1 ! 0 = use_energy (?nodes ! 0) (TX_COST * (distance (pos (?nodes ! 0)) BS_POS / 55))"
    by (drule_tac x = 0 in spec) simp
  moreover from all have "nodes1 ! 1 = ?nodes ! 1"
    by (drule_tac x = 1 in spec) simp
  moreover from all have "nodes1 ! 2 = ?nodes ! 2"
    by (drule_tac x = 2 in spec) simp
  ultimately have "case teen ?nodes 3 0 5 ?sns of
          (nodes1, paths, delivered) \<Rightarrow>
            nodes1 ! 0 = use_energy (?nodes ! 0) (TX_COST * (distance (pos (?nodes ! 0)) BS_POS / 55))
            \<and> nodes1 ! 1 = ?nodes ! 1 \<and> nodes1 ! 2 = ?nodes ! 2"
    unfolding res by simp
  with e t show ?thesis
    unfolding Let_def by (intro conjI) simp_all
qed

text \<open>
  The claim as stated fails: hard threshold 0, soft threshold 1 (in the configured range)
  and a sensed value of one half (in \<open>[0, 100]\<close>). The alive node does not trigger; the round
  leaves it as it was, with no edge and nothing delivered.
\<close>

theorem teen_hard0_counterexample:
  "(0::real) \<le> 1 / 2 \<and> (1 / 2::real) \<le> 100 \<and> (1::real) \<le> 1 \<and> (1::real) \<le> 20
   \<and> alive \<lparr>id_n = 0, pos = (50, 55), energy = 1, alive = True\<rparr>
   \<and> \<not> teen_trigger (1 / 2) 0 1
   \<and> teen [\<lparr>id_n = 0, pos = (50, 55), energy = 1, alive = True\<rparr>] 3 0 1 (\<lambda>k. 1 / 2)
       = ([\<lparr>id_n = 0, pos = (50, 55), energy = 1, alive = True\<rparr>], [], 0)"
  by (simp add: teen_def teen_step_def teen_trigger_def)

text \<open>
  C9. One round of any protocol returns, keeps the number of nodes, keeps every node's id
  and position, and changes a node by calls of the energy debit only (which touch nothing
  but \<open>energy\<close> and \<open>alive\<close>).
\<close>

theorem routing_frame:
  "\<exists>nodes1 paths delivered.
      run_round proto nodes packets hard soft r = Some (nodes1, paths, delivered)
      \<and> length nodes1 = length nodes
      \<and> map id_n nodes1 = map id_n nodes
      \<and> map pos nodes1 = map pos nodes
      \<and> debits nodes nodes1
      \<and> id_n (use_energy n a) = id_n n \<and> pos (use_energy n a) = pos n"
proof -
  from run_round_Some[of proto nodes packets hard soft r]
  obtain nodes1 paths delivered where
    rr: "run_round proto nodes packets hard soft r = Some (nodes1, paths, delivered)"
    by (metis prod_cases3)
  from run_round_debits[OF rr] have d: "debits nodes nodes1" .
  have "id_n (use_energy n a) = id_n n \<and> pos (use_energy n a) = pos n"
    by (simp add: use_energy_def Let_def)
  with rr d debits_length[OF d] debits_map_id[OF d] debits_map_pos[OF d]
  show ?thesis by blast
qed

theorem routing_frame_witness:
  "\<exists>nodes1 paths delivered.
      run_round PEGASIS [\<lparr>id_n = 0, pos = (50, 55), energy = 1, alive = True\<rparr>,
                         \<lparr>id_n = 1, pos = (10, 20), energy = 0, alive = False\<rparr>] 3 50 5
        \<lparr>pick = \<lambda>i. 0, sense = \<lambda>k. 70\<rparr> = Some (nodes1, paths, delivered)
      \<and> length nodes1 = 2 \<and> map id_n nodes1 = [0, 1] \<and> map pos nodes1 = [(50, 55), (10, 20)]"
  using routing_frame[of PEGASIS "[\<lparr>id_n = 0, pos = (50, 55), energy = 1, alive = True\<rparr>,
                         \<lparr>id_n = 1, pos = (10, 20), energy = 0, alive = False\<rparr>]" 3 50 5
        "\<lparr>pick = \<lambda>i. 0, sense = \<lambda>k. 70\<rparr>"
        "\<lparr>id_n = 0, pos = (50, 55), energy = 1, alive = True\<rparr>" 1]
  by (auto simp del: run_round.simps)

text \<open>
  C10. In a LEACH round on a population with distinct ids (as every created population
  has) and at least one alive node, the round returns, the delivered count is \<open>packets\<close>
  times \<open>max 1 (alive_count div 10)\<close> for every draw of the sample and whatever the debits
  do to the heads, and the edge list has one edge per node alive at the start.
\<close>

theorem leach_delivered_count:
  assumes "distinct (map id_n nodes)" "\<exists>n \<in> set nodes. alive n"
  shows "\<exists>nodes1 paths. leach nodes packets pk
            = Some (nodes1, paths, packets * int (max 1 (length (filter alive nodes) div 10)))
          \<and> length paths = length (filter alive nodes)"
proof -
  from assms(2) have "alive_idx nodes \<noteq> []" by (simp add: alive_idx_nonempty)
  from leach_count[OF assms(1) this, of packets pk] show ?thesis
    by (simp add: num_ch_def alive_idx_length)
qed

theorem leach_delivered_count_witness:
  "(let nodes = [\<lparr>id_n = 0, pos = (50, 55), energy = 1 / 100, alive = True\<rparr>,
                 \<lparr>id_n = 1, pos = BS_POS, energy = 1, alive = True\<rparr>]
    in distinct (map id_n nodes) \<and> list_ex alive nodes
     \<and> leach nodes 3 (\<lambda>i. 0)
         = Some ([\<lparr>id_n = 0, pos = (50, 55), energy = - 1 / 100, alive = False\<rparr>,
                  \<lparr>id_n = 1, pos = BS_POS, energy = 98 / 100, alive = True\<rparr>],
                 [((50, 55), BS_POS), (BS_POS, (50, 55))], 3)
     \<and> (\<exists>nodes1 paths. leach nodes 3 (\<lambda>i. 0) = Some (nodes1, paths, 3 * int (max 1 (2 div 10)))
           \<and> length paths = 2))"
proof -
  let ?nodes = "[\<lparr>id_n = 0, pos = (50, 55), energy = 1 / 100, alive = True\<rparr>,
                 \<lparr>id_n = 1, pos = BS_POS, energy = 1, alive = True\<rparr>]"
  have h: "distinct (map id_n ?nodes)" "\<exists>n \<in> set ?nodes. alive n" by simp_all
  have e: "leach ?nodes 3 (\<lambda>i. 0)
         = Some ([\<lparr>id_n = 0, pos = (50, 55), energy = - 1 / 100, alive = False\<rparr>,
                  \<lparr>id_n = 1, pos = BS_POS, energy = 98 / 100, alive = True\<rparr>],
                 [((50, 55), BS_POS), (BS_POS, (50, 55))], 3)"
    by (simp add: leach_def cluster_heads_of_def alive_idx_def num_ch_def is_head_def
          use_energy_at_def use_energy_def Let_def distance_50_55 distance_BS_50_55
          TX_COST_def RX_COST_def)
  from leach_delivered_count[OF h, of 3 "\<lambda>i. 0"]
  have "\<exists>nodes1 paths. leach ?nodes 3 (\<lambda>i. 0) = Some (nodes1, paths, 3 * int (max 1 (2 div 10)))
           \<and> length paths = 2"
    by (simp add: numeral_2_eq_2)
  with h e show ?thesis by (simp add: Let_def)
qed

end
